theory Spec2Isabelle
  imports Main "HOL-Library.Word" "HOL-Library.Log_Nat"
begin

section \<open>The JavaScript values the trainer computes with\<close>

subsection \<open>Strings\<close>

text \<open>
  A JavaScript string is a finite sequence of 16-bit code units. \<open>length\<close>, indexing,
  \<open>===\<close> and a regular expression without the \<open>u\<close> flag work on code units; a regular
  expression with the \<open>u\<close> flag and \<open>toLowerCase\<close> work on code points, where a high
  surrogate directly followed by a low surrogate is one code point and any other
  surrogate is a code point of its own.
\<close>

type_synonym jsstring = "16 word list"

type_synonym codepoint = nat

definition js :: "string \<Rightarrow> jsstring" where
  \<comment> \<open>an ASCII literal as a JavaScript string\<close>
  "js s = map of_char s"

definition isHighSurrogate :: "16 word \<Rightarrow> bool" where
  "isHighSurrogate u \<longleftrightarrow> 0xD800 \<le> u \<and> u \<le> 0xDBFF"

definition isLowSurrogate :: "16 word \<Rightarrow> bool" where
  "isLowSurrogate u \<longleftrightarrow> 0xDC00 \<le> u \<and> u \<le> 0xDFFF"

fun StringToCodePoints :: "jsstring \<Rightarrow> codepoint list" where
  "StringToCodePoints [] = []"
| "StringToCodePoints [u] = [unat u]"
| "StringToCodePoints (u # v # r) =
     (if isHighSurrogate u \<and> isLowSurrogate v
      then (0x10000 + (unat u - 0xD800) * 0x400 + (unat v - 0xDC00)) # StringToCodePoints r
      else unat u # StringToCodePoints (v # r))"

definition UTF16EncodeCodePoint :: "codepoint \<Rightarrow> jsstring" where
  "UTF16EncodeCodePoint c =
     (if c < 0x10000 then [of_nat c]
      else [of_nat (0xD800 + (c - 0x10000) div 0x400), of_nat (0xDC00 + (c - 0x10000) mod 0x400)])"

definition CodePointsToString :: "codepoint list \<Rightarrow> jsstring" where
  "CodePointsToString cs = concat (map UTF16EncodeCodePoint cs)"

definition isWhiteSpace :: "16 word \<Rightarrow> bool" where
  \<comment> \<open>what \<open>\<bsol>s\<close> matches and \<open>trim\<close> strips: WhiteSpace and LineTerminator of ECMA-262\<close>
  "isWhiteSpace u \<longleftrightarrow>
     (0x9 \<le> u \<and> u \<le> 0xD) \<or> u = 0x20 \<or> u = 0xA0 \<or> u = 0x1680 \<or>
     (0x2000 \<le> u \<and> u \<le> 0x200A) \<or> u = 0x2028 \<or> u = 0x2029 \<or> u = 0x202F \<or>
     u = 0x205F \<or> u = 0x3000 \<or> u = 0xFEFF"

definition trim :: "jsstring \<Rightarrow> jsstring" where
  "trim s = rev (dropWhile isWhiteSpace (rev (dropWhile isWhiteSpace s)))"

function split_ws :: "jsstring \<Rightarrow> jsstring list" where
  \<comment> \<open>\<open>s.split(/\<bsol>s+/)\<close>: the pieces between the maximal runs of white space\<close>
  "split_ws s =
     (case dropWhile (\<lambda>u. \<not> isWhiteSpace u) s of
        [] \<Rightarrow> [s]
      | _ # _ \<Rightarrow> takeWhile (\<lambda>u. \<not> isWhiteSpace u) s
                 # split_ws (dropWhile isWhiteSpace (dropWhile (\<lambda>u. \<not> isWhiteSpace u) s)))"
  by pat_completeness auto
termination
proof (relation "measure length")
  show "wf (measure length)" by simp
next
  fix s :: jsstring and x xs
  assume d: "dropWhile (\<lambda>u. \<not> isWhiteSpace u) s = x # xs"
  have "isWhiteSpace x"
    using d hd_dropWhile [of "\<lambda>u. \<not> isWhiteSpace u" s] by auto
  then have "length (dropWhile isWhiteSpace (x # xs)) \<le> length xs"
    by (simp add: length_dropWhile_le)
  moreover have "length (x # xs) \<le> length s"
    using d length_dropWhile_le [of "\<lambda>u. \<not> isWhiteSpace u" s] by simp
  ultimately show
    "(dropWhile isWhiteSpace (dropWhile (\<lambda>u. \<not> isWhiteSpace u) s), s) \<in> measure length"
    using d by simp
qed

declare split_ws.simps [simp del]

subsection \<open>The Unicode tables of the engine\<close>

text \<open>
  \<open>\<bsol>p{P}\<close>, \<open>\<bsol>p{S}\<close> and \<open>toLowerCase\<close> read the Unicode Character Database that the
  JavaScript engine ships. The tables are a parameter of the model: a theorem stated for
  every \<open>U\<close> holds for the tables of any engine.
\<close>

record ucd =
  isPunctuation :: "codepoint \<Rightarrow> bool"
  isSymbol :: "codepoint \<Rightarrow> bool"
  lowercaseMapping :: "codepoint \<Rightarrow> codepoint list"
  isCased :: "codepoint \<Rightarrow> bool"
  isCaseIgnorable :: "codepoint \<Rightarrow> bool"

definition basic_latin :: ucd where
  \<comment> \<open>the tables on the blocks Basic Latin (U+0000..U+007F) and Emoticons
      (U+1F600..U+1F64F) and on the Greek sigmas U+03A3, U+03C2 and U+03C3; every other
      code point is left without properties\<close>
  "basic_latin = \<lparr>
     isPunctuation = (\<lambda>c. (0x21 \<le> c \<and> c \<le> 0x23) \<or> (0x25 \<le> c \<and> c \<le> 0x2A) \<or>
        (0x2C \<le> c \<and> c \<le> 0x2F) \<or> c = 0x3A \<or> c = 0x3B \<or> c = 0x3F \<or> c = 0x40 \<or>
        (0x5B \<le> c \<and> c \<le> 0x5D) \<or> c = 0x5F \<or> c = 0x7B \<or> c = 0x7D),
     isSymbol = (\<lambda>c. c = 0x24 \<or> c = 0x2B \<or> (0x3C \<le> c \<and> c \<le> 0x3E) \<or> c = 0x5E \<or>
        c = 0x60 \<or> c = 0x7C \<or> c = 0x7E \<or> (0x1F600 \<le> c \<and> c \<le> 0x1F64F)),
     lowercaseMapping = (\<lambda>c. if 0x41 \<le> c \<and> c \<le> 0x5A then [c + 0x20]
        else if c = 0x3A3 then [0x3C3] else [c]),
     isCased = (\<lambda>c. (0x41 \<le> c \<and> c \<le> 0x5A) \<or> (0x61 \<le> c \<and> c \<le> 0x7A) \<or>
        c = 0x3A3 \<or> c = 0x3C2 \<or> c = 0x3C3),
     isCaseIgnorable = (\<lambda>c. c = 0x27 \<or> c = 0x2E \<or> c = 0x3A \<or> c = 0x5E \<or> c = 0x60) \<rparr>"

fun afterCased :: "ucd \<Rightarrow> codepoint list \<Rightarrow> bool" where
  \<comment> \<open>walking away from a position: case-ignorable code points, then a cased one\<close>
  "afterCased U [] = False"
| "afterCased U (c # cs) = (isCased U c \<or> (isCaseIgnorable U c \<and> afterCased U cs))"

definition Final_Sigma :: "ucd \<Rightarrow> codepoint list \<Rightarrow> codepoint list \<Rightarrow> bool" where
  \<comment> \<open>\<open>front\<close> is the text in front of the sigma, nearest code point first\<close>
  "Final_Sigma U front rest \<longleftrightarrow> afterCased U front \<and> \<not> afterCased U rest"

fun toLowercase :: "ucd \<Rightarrow> codepoint list \<Rightarrow> codepoint list \<Rightarrow> codepoint list" where
  \<comment> \<open>the locale-independent lower-casing of Unicode: the mapping of each code point,
      and U+03C2 for a capital sigma in final position\<close>
  "toLowercase U front [] = []"
| "toLowercase U front (c # rest) =
     (if c = 0x3A3 \<and> Final_Sigma U front rest then [0x3C2] else lowercaseMapping U c)
     @ toLowercase U (c # front) rest"

definition toLowerCase :: "ucd \<Rightarrow> jsstring \<Rightarrow> jsstring" where
  "toLowerCase U s = CodePointsToString (toLowercase U [] (StringToCodePoints s))"

section \<open>Utility functions of App.jsx\<close>

definition sanitize :: "jsstring \<Rightarrow> jsstring" where
  \<comment> \<open>\<open>text.replace(/[\<bsol>u200B-\<bsol>u200D\<bsol>uFEFF]/g, "")\<close>\<close>
  "sanitize text = filter (\<lambda>u. \<not> ((0x200B \<le> u \<and> u \<le> 0x200D) \<or> u = 0xFEFF)) text"

definition stripPunctuation :: "ucd \<Rightarrow> jsstring \<Rightarrow> jsstring" where
  \<comment> \<open>\<open>s.replace(/[\<bsol>p{P}\<bsol>p{S}]/gu, "")\<close>\<close>
  "stripPunctuation U s =
     CodePointsToString
       (filter (\<lambda>c. \<not> (isPunctuation U c \<or> isSymbol U c)) (StringToCodePoints s))"

record options =
  ignoreCase :: bool
  ignorePunc :: bool

definition normalize_text :: "ucd \<Rightarrow> jsstring \<Rightarrow> options \<Rightarrow> jsstring" where
  \<comment> \<open>\<open>normalize\<close> of the source; HOL has a constant of that name\<close>
  "normalize_text U s opts =
     (let out = sanitize s;
          out = (if ignorePunc opts then stripPunctuation U out else out);
          out = (if ignoreCase opts then toLowerCase U out else out)
      in out)"

definition splitWords :: "jsstring \<Rightarrow> jsstring list" where
  \<comment> \<open>\<open>s.trim().split(/\<bsol>s+/).filter(Boolean)\<close>: the empty string is the falsy one\<close>
  "splitWords s = filter (\<lambda>w. w \<noteq> []) (split_ws (trim s))"

subsection \<open>Numbers\<close>

text \<open>
  A JavaScript number is an IEEE 754 binary64 value, and \<open>/\<close> and \<open>*\<close> round their exact
  result to the nearest such value, ties to the even significand. The model keeps the
  value of a number as a rational and rounds to 53 significant bits with an unbounded
  exponent: it is the binary64 result wherever that is a normal number, which covers
  every quotient and product of the trainer (word counts and seconds are below \<open>2^53\<close>,
  and nothing is divided by zero). \<open>Math.round\<close> is exact: the integer nearest to
  its argument, the upper one at a tie.
\<close>

type_synonym number = rat

definition pow2 :: "int \<Rightarrow> rat" where
  "pow2 k = (if 0 \<le> k then 2 ^ nat k else 1 / 2 ^ nat (- k))"

definition binade :: "rat \<Rightarrow> int" where
  \<comment> \<open>for \<open>0 < q\<close>, the exponent \<open>e\<close> with \<open>2^e \<le> q < 2^(e+1)\<close>\<close>
  "binade q = (let (a, b) = quotient_of q; k = bitlen a - bitlen b
               in if pow2 k \<le> q then k else k - 1)"

definition round_half_even :: "rat \<Rightarrow> int" where
  "round_half_even x =
     (let f = \<lfloor>x\<rfloor>; d = x - of_int f
      in if d < 1 / 2 then f else if 1 / 2 < d then f + 1 else if even f then f else f + 1)"

definition fl :: "rat \<Rightarrow> number" where
  \<comment> \<open>round to nearest, ties to even, with 53 significant bits\<close>
  "fl q = (if q = 0 then 0
           else let u = pow2 (binade \<bar>q\<bar> - 52)
                in sgn q * of_int (round_half_even (\<bar>q\<bar> / u)) * u)"

definition js_div :: "number \<Rightarrow> number \<Rightarrow> number" where
  "js_div x y = fl (x / y)"

definition js_mul :: "number \<Rightarrow> number \<Rightarrow> number" where
  "js_mul x y = fl (x * y)"

definition Math_round :: "number \<Rightarrow> int" where
  "Math_round x = \<lfloor>x + 1 / 2\<rfloor>"

section \<open>Scoring\<close>

record stats =
  accuracy :: int
  wordsTyped :: nat
  totalWords :: nat

function count_loop :: "jsstring list \<Rightarrow> jsstring list \<Rightarrow> nat \<Rightarrow> nat \<Rightarrow> nat" where
  \<comment> \<open>the \<open>for\<close> loop of \<open>calcStats\<close>, from index \<open>i\<close> with \<open>correct\<close> matches so far\<close>
  "count_loop refWords attWords i correct =
     (if i < min (length refWords) (length attWords)
      then count_loop refWords attWords (i + 1)
             (if refWords ! i = attWords ! i then correct + 1 else correct)
      else correct)"
  by pat_completeness auto
termination
  by (relation "measure (\<lambda>(refWords, attWords, i, correct).
        min (length refWords) (length attWords) - i)") auto

declare count_loop.simps [simp del]

definition calcStats :: "ucd \<Rightarrow> jsstring \<Rightarrow> jsstring \<Rightarrow> options \<Rightarrow> stats" where
  "calcStats U reference attempt opts =
     (let refN = normalize_text U reference opts;
          attN = normalize_text U attempt opts;
          refWords = splitWords refN;
          attWords = splitWords attN;
          total = (if length refWords = 0 then 1 else length refWords);
          correct = count_loop refWords attWords 0 0;
          accuracy = max 0 (min 100
            (Math_round (js_mul (js_div (of_nat correct) (of_nat total)) 100)))
      in \<lparr> accuracy = accuracy, wordsTyped = length attWords,
           totalWords = length refWords \<rparr>)"

subsection \<open>What the specification says of the score\<close>

definition positional_matches :: "jsstring list \<Rightarrow> jsstring list \<Rightarrow> nat" where
  \<comment> \<open>the number of indices below both lengths at which the two words are equal\<close>
  "positional_matches refWords attWords =
     length (filter (\<lambda>i. refWords ! i = attWords ! i)
       [0..<min (length refWords) (length attWords)])"

definition round_half_up :: "rat \<Rightarrow> int" where
  \<comment> \<open>rounding of an exact value, a tie going up\<close>
  "round_half_up x = \<lfloor>x + 1 / 2\<rfloor>"

definition exact_accuracy :: "nat \<Rightarrow> nat \<Rightarrow> int" where
  \<comment> \<open>\<open>round(correct / max(1, n) * 100)\<close> clamped to \<open>[0, 100]\<close>, in exact arithmetic\<close>
  "exact_accuracy correct n =
     max 0 (min 100 (round_half_up (of_nat correct / of_nat (max 1 n) * 100)))"

section \<open>Highlighter\<close>

datatype wordState = Ok | No | Missing

record node =
  key :: nat
  state :: wordState
  base :: string
  children :: jsstring

definition word_at :: "jsstring list \<Rightarrow> nat \<Rightarrow> jsstring" where
  \<comment> \<open>\<open>words[i] ?? ""\<close>: reading past the end gives \<open>undefined\<close>\<close>
  "word_at ws i = (if i < length ws then ws ! i else [])"

definition base_class :: "wordState \<Rightarrow> string" where
  "base_class st =
     (if st = Ok then ''bg-green-100 text-green-900 border-green-300''
      else if st = No then ''bg-red-100 text-red-900 border-red-300''
      else ''bg-yellow-50 text-yellow-800 border-yellow-200'')"

definition Highlighter :: "ucd \<Rightarrow> jsstring \<Rightarrow> jsstring \<Rightarrow> options \<Rightarrow> bool \<Rightarrow> node list" where
  \<comment> \<open>one \<open>span\<close> per raw reference word. After \<open>?? ""\<close> the attempt word is never
      \<open>undefined\<close>, so the test for the pending state is the test for the empty string;
      \<open>match\<close> is the truth value of \<open>refN && refN === attN\<close>\<close>
  "Highlighter U reference attempt opts hideWords =
     (let refRawWords = splitWords reference;
          refNWords = splitWords (normalize_text U reference opts);
          attNWords = splitWords (normalize_text U attempt opts)
      in map (\<lambda>(i, rawWord).
           let refN = word_at refNWords i;
               attN = word_at attNWords i;
               match = (refN \<noteq> [] \<and> refN = attN);
               st = (if attN = [] then Missing else if match then Ok else No)
           in \<lparr> key = i, state = st, base = base_class st,
                children = (if hideWords then replicate (length rawWord) 0xA0 else rawWord) \<rparr>)
         (enumerate 0 refRawWords))"

section \<open>The session\<close>

record session =
  reference :: jsstring
  attempt :: jsstring
  hidden :: bool
  started :: bool
  seconds :: nat

definition handleStart :: "session \<Rightarrow> session" where
  "handleStart s = s\<lparr> hidden := True, started := True, seconds := 0, attempt := [] \<rparr>"

definition handleReveal :: "session \<Rightarrow> session" where
  "handleReveal s = s\<lparr> hidden := False, started := False \<rparr>"

definition handleResetAll :: "session \<Rightarrow> session" where
  "handleResetAll s =
     s\<lparr> reference := [], attempt := [], hidden := False, started := False, seconds := 0 \<rparr>"

definition tick :: "session \<Rightarrow> session" where
  \<comment> \<open>the interval of \<open>useTimer\<close> exists only while \<open>started\<close> holds\<close>
  "tick s = (if started s then s\<lparr> seconds := seconds s + 1 \<rparr> else s)"

definition wpm :: "nat \<Rightarrow> nat \<Rightarrow> int" where
  "wpm typed secs =
     (let minutes = max (js_div 1 60) (js_div (of_nat secs) 60);
          v = js_div (of_nat typed) minutes
      in Math_round (if v = 0 then 0 else v))"

definition exact_wpm :: "nat \<Rightarrow> nat \<Rightarrow> int" where
  \<comment> \<open>\<open>round(wordsTyped / max(1/60, elapsedSeconds/60))\<close> in exact arithmetic\<close>
  "exact_wpm typed secs = round_half_up (of_nat typed / max (1 / 60) (of_nat secs / 60))"

subsection \<open>Auxiliary notions for the statements\<close>

definition percent :: "nat \<Rightarrow> nat \<Rightarrow> int" where
  \<comment> \<open>\<open>Math.round((correct / total) * 100)\<close>, the value that \<open>calcStats\<close> clamps\<close>
  "percent correct divisor = Math_round (js_mul (js_div (of_nat correct) (of_nat divisor)) 100)"

definition at_half :: "rat \<Rightarrow> bool" where
  \<comment> \<open>\<open>x\<close> lies exactly half-way between two integers\<close>
  "at_half x \<longleftrightarrow> of_int \<lfloor>x + 1 / 2\<rfloor> = x + 1 / 2"

fun join_space :: "jsstring list \<Rightarrow> jsstring" where
  \<comment> \<open>\<open>ws.join(" ")\<close>\<close>
  "join_space [] = []"
| "join_space [w] = w"
| "join_space (w # v # r) = w @ 0x20 # join_space (v # r)"

definition plain_word :: "jsstring \<Rightarrow> bool" where
  \<comment> \<open>a non-empty string without white space\<close>
  "plain_word w \<longleftrightarrow> w \<noteq> [] \<and> (\<forall>u \<in> set w. \<not> isWhiteSpace u)"

definition isScalarValue :: "codepoint \<Rightarrow> bool" where
  \<comment> \<open>a Unicode scalar value: a code point that is not a surrogate\<close>
  "isScalarValue c \<longleftrightarrow> c < 0xD800 \<or> (0xDFFF < c \<and> c < 0x110000)"

definition well_formed :: "jsstring \<Rightarrow> bool" where
  \<comment> \<open>well-formed UTF-16: no unpaired surrogate code unit\<close>
  "well_formed s \<longleftrightarrow> list_all isScalarValue (StringToCodePoints s)"

definition zero_width :: "codepoint \<Rightarrow> bool" where
  \<comment> \<open>the character class of \<open>sanitize\<close>, on code points\<close>
  "zero_width c \<longleftrightarrow> (0x200B \<le> c \<and> c \<le> 0x200D) \<or> c = 0xFEFF"

definition lowercase_stable :: "ucd \<Rightarrow> bool" where
  \<comment> \<open>what idempotence needs of the lower-case mapping: it maps scalar values to scalar
      values that it leaves fixed, none of them a capital sigma, and it creates no
      zero-width character and no punctuation or symbol; the final sigma is fixed too\<close>
  "lowercase_stable U \<longleftrightarrow>
     (\<forall>c. isScalarValue c \<longrightarrow>
        (\<forall>d \<in> set (lowercaseMapping U c).
           isScalarValue d \<and> lowercaseMapping U d = [d] \<and> d \<noteq> 0x3A3 \<and>
           (zero_width d \<longrightarrow> zero_width c) \<and>
           (isPunctuation U d \<or> isSymbol U d \<longrightarrow> isPunctuation U c \<or> isSymbol U c))) \<and>
     lowercaseMapping U 0x3C2 = [0x3C2] \<and> \<not> isPunctuation U 0x3C2 \<and> \<not> isSymbol U 0x3C2"

definition normalize_code_points :: "ucd \<Rightarrow> options \<Rightarrow> codepoint list \<Rightarrow> codepoint list" where
  \<comment> \<open>the three steps of \<open>normalize\<close> on a list of code points\<close>
  "normalize_code_points U opts cs =
     (let out = filter (\<lambda>c. \<not> zero_width c) cs;
          out = (if ignorePunc opts
                 then filter (\<lambda>c. \<not> (isPunctuation U c \<or> isSymbol U c)) out else out);
          out = (if ignoreCase opts then toLowercase U [] out else out)
      in out)"

section \<open>Facts about the word splitter\<close>

lemma splitWords_nonempty: "w \<in> set (splitWords s) \<Longrightarrow> w \<noteq> []"
  by (simp add: splitWords_def)

lemma splitWords_nth_nonempty: "i < length (splitWords s) \<Longrightarrow> splitWords s ! i \<noteq> []"
  using splitWords_nonempty [of "splitWords s ! i" s] by simp

lemma splitWords_Nil: "splitWords [] = []"
  by (simp add: splitWords_def trim_def split_ws.simps [of "[]"])

lemma normalize_text_Nil: "normalize_text U [] opts = []"
  by (simp add: normalize_text_def sanitize_def stripPunctuation_def toLowerCase_def
      CodePointsToString_def)

lemmas string_eval = normalize_text_def sanitize_def stripPunctuation_def toLowerCase_def
  CodePointsToString_def UTF16EncodeCodePoint_def isHighSurrogate_def isLowSurrogate_def
  Final_Sigma_def basic_latin_def js_def

lemmas words_eval = splitWords_def trim_def isWhiteSpace_def
  split_ws.simps [of "[]"] split_ws.simps [of "_ # _"]

section \<open>The session state machine\<close>

text \<open>
  C7. From any state, start sets the elapsed seconds to 0, clears the attempt and enters
  the practising state, in which the timer runs; reveal stops the timer and leaves the
  attempt, the reference and the elapsed seconds as they are; resetAll clears reference,
  attempt and elapsed seconds and returns to the editing state whatever the state was;
  and reveal in the editing state changes nothing.
\<close>

theorem session_transitions:
  fixes s :: session
  shows "seconds (handleStart s) = 0 \<and> attempt (handleStart s) = [] \<and>
         hidden (handleStart s) \<and> started (handleStart s) \<and>
         seconds (tick (handleStart s)) = 1 \<and>
         \<not> started (handleReveal s) \<and> tick (handleReveal s) = handleReveal s \<and>
         attempt (handleReveal s) = attempt s \<and> reference (handleReveal s) = reference s \<and>
         seconds (handleReveal s) = seconds s \<and>
         handleResetAll s =
           \<lparr> reference = [], attempt = [], hidden = False, started = False, seconds = 0 \<rparr> \<and>
         (\<not> hidden s \<and> \<not> started s \<longrightarrow> handleReveal s = s)"
  by (simp add: handleStart_def handleReveal_def handleResetAll_def tick_def)

theorem session_transitions_witness:
  "\<not> hidden \<lparr> reference = js ''to be'', attempt = js ''to'', hidden = False,
       started = False, seconds = 7 \<rparr> \<and>
   handleReveal \<lparr> reference = js ''to be'', attempt = js ''to'', hidden = False,
       started = False, seconds = 7 \<rparr> =
     \<lparr> reference = js ''to be'', attempt = js ''to'', hidden = False,
       started = False, seconds = 7 \<rparr> \<and>
   seconds (handleStart \<lparr> reference = js ''to be'', attempt = js ''to'', hidden = False,
       started = False, seconds = 7 \<rparr>) = 0"
  using session_transitions [of "\<lparr> reference = js ''to be'', attempt = js ''to'',
       hidden = False, started = False, seconds = 7 \<rparr>"]
  by simp

section \<open>The highlighter and the normaliser\<close>


lemma zero_width_range:
  fixes u :: "16 word"
  shows "(0x200B \<le> u \<and> u \<le> 0x200D) \<or> u = 0xFEFF \<longleftrightarrow> u \<in> {0x200B, 0x200C, 0x200D, 0xFEFF}"
proof -
  have "unat u \<in> {0x200B, 0x200C, 0x200D} \<longleftrightarrow> u \<in> {0x200B, 0x200C, 0x200D}"
    by (simp add: word_unat_eq_iff)
  moreover have "(0x200B \<le> u \<and> u \<le> 0x200D) \<longleftrightarrow> unat u \<in> {0x200B, 0x200C, 0x200D}"
    unfolding word_le_nat_alt by (simp; arith)
  ultimately show ?thesis by simp
qed


lemma Highlighter_length:
  "length (Highlighter U r a opts h) = length (splitWords r)"
  by (simp add: Highlighter_def)

lemma Highlighter_nth:
  assumes "i < length (splitWords r)"
  shows "Highlighter U r a opts h ! i =
    (let refN = word_at (splitWords (normalize_text U r opts)) i;
         attN = word_at (splitWords (normalize_text U a opts)) i;
         st = (if attN = [] then Missing else if refN \<noteq> [] \<and> refN = attN then Ok else No)
     in \<lparr> key = i, state = st, base = base_class st,
          children = (if h then replicate (length (splitWords r ! i)) 0xA0
                      else splitWords r ! i) \<rparr>)"
  using assms by (simp add: Highlighter_def Let_def nth_enumerate_eq)

lemma word_at_empty_iff:
  "word_at (splitWords s) i = [] \<longleftrightarrow> length (splitWords s) \<le> i"
  using splitWords_nth_nonempty [of i s] by (auto simp: word_at_def)

text \<open>
  C3. The highlighter produces exactly one entry per raw (not normalised) reference word,
  in the original order, showing the raw word; the state at position \<open>i\<close> is pending
  (\<open>Missing\<close>) when the \<open>i\<close>-th normalised attempt word is absent or empty, matched
  (\<open>Ok\<close>) when the \<open>i\<close>-th normalised reference word equals the \<open>i\<close>-th normalised
  attempt word, and mismatched (\<open>No\<close>) otherwise.
\<close>

theorem Highlighter_classifies:
  "length (Highlighter U r a opts False) = length (splitWords r) \<and>
   (\<forall>i < length (splitWords r).
      children (Highlighter U r a opts False ! i) = splitWords r ! i \<and>
      state (Highlighter U r a opts False ! i) =
        (let refNWords = splitWords (normalize_text U r opts);
             attNWords = splitWords (normalize_text U a opts)
         in if length attNWords \<le> i \<or> attNWords ! i = [] then Missing
            else if i < length refNWords \<and> refNWords ! i = attNWords ! i then Ok
            else No))"
proof (intro conjI allI impI)
  show "length (Highlighter U r a opts False) = length (splitWords r)"
    by (rule Highlighter_length)
next
  fix i assume i: "i < length (splitWords r)"
  show "children (Highlighter U r a opts False ! i) = splitWords r ! i"
    by (simp add: Highlighter_nth [OF i] Let_def)
  show "state (Highlighter U r a opts False ! i) =
        (let refNWords = splitWords (normalize_text U r opts);
             attNWords = splitWords (normalize_text U a opts)
         in if length attNWords \<le> i \<or> attNWords ! i = [] then Missing
            else if i < length refNWords \<and> refNWords ! i = attNWords ! i then Ok
            else No)"
    using splitWords_nth_nonempty [of i "normalize_text U a opts"]
    by (auto simp: Highlighter_nth [OF i] Let_def word_at_def)
qed

theorem Highlighter_classifies_witness:
  "(1::nat) < length (splitWords (js ''to be'')) \<and>
   children (Highlighter basic_latin (js ''to be'') (js ''to me'')
     \<lparr> ignoreCase = True, ignorePunc = False \<rparr> False ! 1) = js ''be'' \<and>
   state (Highlighter basic_latin (js ''to be'') (js ''to me'')
     \<lparr> ignoreCase = True, ignorePunc = False \<rparr> False ! 1) = No"
proof -
  have sw: "splitWords (js ''to be'') = [js ''to'', js ''be'']"
    "splitWords (js ''to me'') = [js ''to'', js ''me'']"
    by (simp_all add: words_eval js_def)
  have n: "normalize_text basic_latin (js ''to be'') \<lparr> ignoreCase = True, ignorePunc = False \<rparr>
      = js ''to be''"
    "normalize_text basic_latin (js ''to me'') \<lparr> ignoreCase = True, ignorePunc = False \<rparr>
      = js ''to me''"
    by (simp_all add: string_eval)
  show ?thesis
    using Highlighter_classifies [of basic_latin "js ''to be''" "js ''to me''"
        "\<lparr> ignoreCase = True, ignorePunc = False \<rparr>"]
    unfolding n sw by (simp add: js_def)
qed

text \<open>
  C10. A position whose normalised reference word is absent or empty is never classified
  matched: it is pending when the attempt word at that position is absent or empty, and
  mismatched otherwise.
\<close>

theorem empty_reference_word_not_matched:
  "\<forall>i < length (splitWords r).
     (let refNWords = splitWords (normalize_text U r opts);
          attNWords = splitWords (normalize_text U a opts)
      in length refNWords \<le> i \<or> refNWords ! i = [] \<longrightarrow>
         state (Highlighter U r a opts h ! i) \<noteq> Ok \<and>
         state (Highlighter U r a opts h ! i) =
           (if length attNWords \<le> i \<or> attNWords ! i = [] then Missing else No))"
proof (intro allI impI)
  fix i assume i: "i < length (splitWords r)"
  show "let refNWords = splitWords (normalize_text U r opts);
          attNWords = splitWords (normalize_text U a opts)
      in length refNWords \<le> i \<or> refNWords ! i = [] \<longrightarrow>
         state (Highlighter U r a opts h ! i) \<noteq> Ok \<and>
         state (Highlighter U r a opts h ! i) =
           (if length attNWords \<le> i \<or> attNWords ! i = [] then Missing else No)"
    using splitWords_nth_nonempty [of i "normalize_text U a opts"]
    by (auto simp: Highlighter_nth [OF i] Let_def word_at_def)
qed

theorem empty_reference_word_not_matched_witness:
  "(1::nat) < length (splitWords (js ''a -'')) \<and>
   length (splitWords (normalize_text basic_latin (js ''a -'')
     \<lparr> ignoreCase = False, ignorePunc = True \<rparr>)) \<le> 1 \<and>
   state (Highlighter basic_latin (js ''a -'') (js ''a b'')
     \<lparr> ignoreCase = False, ignorePunc = True \<rparr> False ! 1) = No"
proof -
  have sw: "splitWords (js ''a -'') = [js ''a'', js ''-'']"
    "splitWords (js ''a '') = [js ''a'']" "splitWords (js ''a b'') = [js ''a'', js ''b'']"
    by (simp_all add: words_eval js_def)
  have n: "normalize_text basic_latin (js ''a -'') \<lparr> ignoreCase = False, ignorePunc = True \<rparr>
      = js ''a ''"
    "normalize_text basic_latin (js ''a b'') \<lparr> ignoreCase = False, ignorePunc = True \<rparr>
      = js ''a b''"
    by (simp_all add: string_eval)
  show ?thesis
    using empty_reference_word_not_matched [of "js ''a -''" basic_latin
        "\<lparr> ignoreCase = False, ignorePunc = True \<rparr>" "js ''a b''" False]
    unfolding n sw by (simp add: js_def)
qed

text \<open>
  C4, as amended. If the attempt normalises to the same text as the reference, the entries
  at the positions below the number of normalised reference words are matched and every
  later entry is pending; the raw reference can have more words than the normalised one,
  since normalising deletes characters. If the attempt is empty, every entry is pending.
\<close>

theorem equal_attempt_classification:
  "(normalize_text U a opts = normalize_text U r opts \<longrightarrow>
      (\<forall>i < length (Highlighter U r a opts h).
         state (Highlighter U r a opts h ! i) =
           (if i < length (splitWords (normalize_text U r opts)) then Ok else Missing))) \<and>
   (\<forall>n \<in> set (Highlighter U r [] opts h). state n = Missing)"
proof (intro conjI impI allI ballI)
  fix i
  assume eq: "normalize_text U a opts = normalize_text U r opts"
    and "i < length (Highlighter U r a opts h)"
  then have i: "i < length (splitWords r)" by (simp add: Highlighter_length)
  show "state (Highlighter U r a opts h ! i) =
           (if i < length (splitWords (normalize_text U r opts)) then Ok else Missing)"
    using splitWords_nth_nonempty [of i "normalize_text U r opts"]
    by (auto simp: Highlighter_nth [OF i] Let_def word_at_def eq)
next
  fix n assume "n \<in> set (Highlighter U r [] opts h)"
  then obtain i where i: "i < length (splitWords r)" and n: "n = Highlighter U r [] opts h ! i"
    by (auto simp: in_set_conv_nth Highlighter_length)
  show "state n = Missing"
    by (simp add: n Highlighter_nth [OF i] Let_def word_at_def normalize_text_Nil splitWords_Nil)
qed



theorem equal_attempt_classification_witness:
  "normalize_text basic_latin (js ''To be'') \<lparr> ignoreCase = True, ignorePunc = False \<rparr> =
     normalize_text basic_latin (js ''to be'') \<lparr> ignoreCase = True, ignorePunc = False \<rparr> \<and>
   (1::nat) < length (Highlighter basic_latin (js ''to be'') (js ''To be'')
     \<lparr> ignoreCase = True, ignorePunc = False \<rparr> False) \<and>
   state (Highlighter basic_latin (js ''to be'') (js ''To be'')
     \<lparr> ignoreCase = True, ignorePunc = False \<rparr> False ! 1) = Ok \<and>
   hd (Highlighter basic_latin (js ''to be'') [] \<lparr> ignoreCase = True, ignorePunc = False \<rparr> False)
     \<in> set (Highlighter basic_latin (js ''to be'') []
           \<lparr> ignoreCase = True, ignorePunc = False \<rparr> False) \<and>
   state (hd (Highlighter basic_latin (js ''to be'') []
     \<lparr> ignoreCase = True, ignorePunc = False \<rparr> False)) = Missing"
proof -
  have sw: "splitWords (js ''to be'') = [js ''to'', js ''be'']"
    by (simp add: words_eval js_def)
  have n: "normalize_text basic_latin (js ''to be'') \<lparr> ignoreCase = True, ignorePunc = False \<rparr>
      = js ''to be''"
    "normalize_text basic_latin (js ''To be'') \<lparr> ignoreCase = True, ignorePunc = False \<rparr>
      = js ''to be''"
    by (simp_all add: string_eval)
  have len: "length (Highlighter basic_latin (js ''to be'') a
      \<lparr> ignoreCase = True, ignorePunc = False \<rparr> False) = 2" for a
    by (simp add: Highlighter_length sw)
  have mem: "hd (Highlighter basic_latin (js ''to be'') []
      \<lparr> ignoreCase = True, ignorePunc = False \<rparr> False)
     \<in> set (Highlighter basic_latin (js ''to be'') []
           \<lparr> ignoreCase = True, ignorePunc = False \<rparr> False)"
    using len [of "[]"] by (intro hd_in_set) auto
  show ?thesis
    using equal_attempt_classification [of basic_latin "js ''To be''"
        "\<lparr> ignoreCase = True, ignorePunc = False \<rparr>" "js ''to be''" False] mem
    unfolding n sw len by simp
qed

text \<open>
  C4 as stated fails: with punctuation ignored, the attempt \<open>a - b\<close> against the reference
  \<open>a - b\<close> leaves the third entry pending, because the normalised reference has two
  words and the raw reference three.
\<close>

theorem equal_attempt_not_all_matched:
  "map state (Highlighter basic_latin (js ''a - b'') (js ''a - b'')
      \<lparr> ignoreCase = False, ignorePunc = True \<rparr> False) = [Ok, Ok, Missing]"
proof -
  have sw: "splitWords (js ''a - b'') = [js ''a'', js ''-'', js ''b'']"
    "splitWords (js ''a  b'') = [js ''a'', js ''b'']"
    by (simp_all add: words_eval js_def)
  have n: "normalize_text basic_latin (js ''a - b'') \<lparr> ignoreCase = False, ignorePunc = True \<rparr>
      = js ''a  b''"
    by (simp add: string_eval)
  show ?thesis
    unfolding Highlighter_def n sw by (simp add: word_at_def js_def)
qed

text \<open>
  C2, as amended. \<open>sanitize\<close> removes exactly the code units U+200B (zero-width space),
  U+200C (zero-width non-joiner), U+200D (zero-width joiner) and U+FEFF (byte-order mark)
  and keeps every other code unit, the left-to-right mark U+200E among them; with both
  options off, \<open>normalize\<close> does the same and nothing else.
\<close>

theorem sanitize_removes:
  "sanitize s = filter (\<lambda>u. u \<notin> {0x200B, 0x200C, 0x200D, 0xFEFF}) s \<and>
   normalize_text U s \<lparr> ignoreCase = False, ignorePunc = False \<rparr> =
     filter (\<lambda>u. u \<notin> {0x200B, 0x200C, 0x200D, 0xFEFF}) s"
  by (simp only: normalize_text_def sanitize_def zero_width_range Let_def
      options.simps if_False simp_thms)

theorem sanitize_removes_witness:
  "normalize_text basic_latin [0x41, 0x200B, 0x200E, 0xFEFF, 0x42]
     \<lparr> ignoreCase = False, ignorePunc = False \<rparr> = [0x41, 0x200E, 0x42]"
  using sanitize_removes [of "[0x41, 0x200B, 0x200E, 0xFEFF, 0x42]" basic_latin]
  by simp

text \<open>
  C2 as stated fails: the left-to-right mark U+200E is outside the character class of
  \<open>sanitize\<close> and stays in the text.
\<close>

theorem left_to_right_mark_kept:
  "normalize_text basic_latin [0x61, 0x200E, 0x62] \<lparr> ignoreCase = False, ignorePunc = False \<rparr>
     = [0x61, 0x200E, 0x62]"
  by (simp add: string_eval)

section \<open>Rounding to a double\<close>

lemma pow2_powi: "pow2 k = 2 powi k"
  by (simp add: pow2_def power_int_def power_inverse [symmetric] inverse_eq_divide power_one_over)

lemma pow2_pos: "0 < pow2 k"
  by (simp add: pow2_powi)

lemma pow2_add: "pow2 (a + b) = pow2 a * pow2 b"
  by (simp add: pow2_powi power_int_add)

lemma pow2_diff: "pow2 (a - b) = pow2 a / pow2 b"
  by (simp add: pow2_powi power_int_diff)

lemma pow2_mono: "a \<le> b \<Longrightarrow> pow2 a \<le> pow2 b"
  by (simp add: pow2_powi power_int_increasing)

lemma pow2_strict_mono: "a < b \<Longrightarrow> pow2 a < pow2 b"
  by (simp add: pow2_powi power_int_strict_increasing)

lemma pow2_less_imp: "pow2 a < pow2 b \<Longrightarrow> a < b"
  using pow2_mono [of b a] by (cases "a < b") auto

lemma pow2_nat: "0 \<le> k \<Longrightarrow> pow2 k = 2 ^ nat k"
  by (simp add: pow2_def)

lemma pow2_numeral: "pow2 (numeral n) = 2 ^ numeral n"
  by (simp add: pow2_def)

lemma pow2_of_nat: "pow2 (int n) = 2 ^ n"
  by (simp add: pow2_def)

lemma bitlen_pow2_bounds:
  assumes "0 < a"
  shows "pow2 (bitlen a - 1) \<le> of_int a" "of_int a < pow2 (bitlen a)"
proof -
  have b1: "1 \<le> bitlen a" using assms by (simp add: bitlen_alt_def)
  have "(2::int) ^ nat (bitlen a - 1) \<le> a" "a < 2 ^ nat (bitlen a)"
    using bitlen_bounds [OF assms] by auto
  then have "(of_int ((2::int) ^ nat (bitlen a - 1)) :: rat) \<le> of_int a"
     "(of_int a :: rat) < of_int (2 ^ nat (bitlen a))"
    by (simp_all only: of_int_le_iff of_int_less_iff)
  then show "pow2 (bitlen a - 1) \<le> of_int a" "of_int a < pow2 (bitlen a)"
    using b1 by (simp_all add: pow2_nat)
qed

lemma binade_bounds:
  assumes "0 < q"
  shows "pow2 (binade q) \<le> q" "q < pow2 (binade q + 1)"
proof -
  obtain a b where ab: "quotient_of q = (a, b)" by (cases "quotient_of q")
  have b: "0 < b" using ab by (rule quotient_of_denom_pos)
  have q: "q = of_int a / of_int b" using ab by (rule quotient_of_div)
  have a: "0 < a" using assms b unfolding q by (simp add: zero_less_divide_iff)
  let ?k = "bitlen a - bitlen b"
  have up: "q < pow2 (?k + 1)"
  proof -
    have "of_int a < pow2 (bitlen a)" using bitlen_pow2_bounds [OF a] by simp
    moreover have "pow2 (bitlen b - 1) \<le> of_int b" using bitlen_pow2_bounds [OF b] by simp
    moreover have "(0::rat) \<le> of_int a" using a by simp
    ultimately have "of_int a / of_int b < pow2 (bitlen a) / pow2 (bitlen b - 1)"
      using pow2_pos [of "bitlen b - 1"] by (intro frac_less) simp_all
    also have "\<dots> = pow2 (?k + 1)"
      by (simp add: pow2_diff [symmetric] algebra_simps)
    finally show ?thesis by (simp add: q)
  qed
  have lo: "pow2 (?k - 1) \<le> q"
  proof -
    have "pow2 (bitlen a - 1) \<le> of_int a" using bitlen_pow2_bounds [OF a] by simp
    moreover have "of_int b \<le> pow2 (bitlen b)" using bitlen_pow2_bounds [OF b] by simp
    moreover have "(0::rat) \<le> of_int a" "(0::rat) < of_int b" using a b by simp_all
    ultimately have "pow2 (bitlen a - 1) / pow2 (bitlen b) \<le> of_int a / of_int b"
      by (intro frac_le) simp_all
    moreover have "pow2 (bitlen a - 1) / pow2 (bitlen b) = pow2 (?k - 1)"
      by (simp add: pow2_diff [symmetric] algebra_simps)
    ultimately show ?thesis by (simp add: q)
  qed
  have bin: "binade q = (if pow2 ?k \<le> q then ?k else ?k - 1)"
    by (simp add: binade_def ab Let_def)
  show "pow2 (binade q) \<le> q" using lo by (simp add: bin)
  show "q < pow2 (binade q + 1)" using up by (auto simp: bin)
qed

lemma binade_unique:
  assumes "pow2 e \<le> q" "q < pow2 (e + 1)"
  shows "binade q = e"
proof -
  have q: "0 < q" using assms(1) pow2_pos [of e] by simp
  have "pow2 (binade q) < pow2 (e + 1)"
    using binade_bounds(1) [OF q] assms(2) by simp
  then have "binade q < e + 1" by (rule pow2_less_imp)
  moreover have "pow2 e < pow2 (binade q + 1)"
    using binade_bounds(2) [OF q] assms(1) by simp
  then have "e < binade q + 1" by (rule pow2_less_imp)
  ultimately show ?thesis by simp
qed

lemma binade_mono:
  assumes "0 < q" "q \<le> r"
  shows "binade q \<le> binade r"
proof -
  have r: "0 < r" using assms by simp
  have "pow2 (binade q) < pow2 (binade r + 1)"
    using binade_bounds(1) [OF assms(1)] binade_bounds(2) [OF r] assms(2) by simp
  then have "binade q < binade r + 1" by (rule pow2_less_imp)
  then show ?thesis by simp
qed

lemma round_half_even_of_int: "round_half_even (of_int n) = n"
  by (simp add: round_half_even_def)

lemma round_half_even_floor:
  "\<lfloor>x\<rfloor> \<le> round_half_even x" "round_half_even x \<le> \<lfloor>x\<rfloor> + 1"
  by (simp_all add: round_half_even_def Let_def)

lemma round_half_even_mono:
  assumes "x \<le> y"
  shows "round_half_even x \<le> round_half_even y"
proof (cases "\<lfloor>x\<rfloor> = \<lfloor>y\<rfloor>")
  case True
  then show ?thesis using assms by (auto simp: round_half_even_def Let_def)
next
  case False
  then have "\<lfloor>x\<rfloor> + 1 \<le> \<lfloor>y\<rfloor>" using floor_mono [OF assms] by simp
  then show ?thesis
    using round_half_even_floor(2) [of x] round_half_even_floor(1) [of y] by simp
qed

lemma round_half_even_error: "\<bar>of_int (round_half_even x) - x\<bar> \<le> 1 / 2"
proof -
  have "of_int \<lfloor>x\<rfloor> \<le> x" "x < of_int \<lfloor>x\<rfloor> + 1" by linarith+
  then show ?thesis by (auto simp: round_half_even_def Let_def)
qed

lemma fl_pos:
  "0 < q \<Longrightarrow> fl q = of_int (round_half_even (q / pow2 (binade q - 52))) * pow2 (binade q - 52)"
  by (simp add: fl_def Let_def)

lemma fl_0: "fl 0 = 0"
  by (simp add: fl_def)

lemma scaled_bounds:
  assumes "0 < q"
  shows "2 ^ 52 \<le> q / pow2 (binade q - 52)" "q / pow2 (binade q - 52) < 2 ^ 53"
proof -
  have "pow2 (binade q) / pow2 (binade q - 52) = pow2 52"
    by (simp add: pow2_diff [symmetric])
  moreover have "pow2 (binade q + 1) / pow2 (binade q - 52) = pow2 53"
    by (simp add: pow2_diff [symmetric])
  moreover have "pow2 (binade q) / pow2 (binade q - 52) \<le> q / pow2 (binade q - 52)"
    using binade_bounds(1) [OF assms] pow2_pos [of "binade q - 52"]
    by (simp add: divide_right_mono)
  moreover have "q / pow2 (binade q - 52) < pow2 (binade q + 1) / pow2 (binade q - 52)"
    using binade_bounds(2) [OF assms] pow2_pos [of "binade q - 52"]
    by (simp add: divide_strict_right_mono)
  ultimately show "2 ^ 52 \<le> q / pow2 (binade q - 52)" "q / pow2 (binade q - 52) < 2 ^ 53"
    by (simp_all add: pow2_numeral)
qed

lemma fl_binade_bounds:
  assumes "0 < q"
  shows "pow2 (binade q) \<le> fl q" "fl q \<le> pow2 (binade q + 1)"
proof -
  let ?u = "pow2 (binade q - 52)"
  let ?m = "round_half_even (q / ?u)"
  have "round_half_even (of_int (2 ^ 52)) \<le> ?m"
    using scaled_bounds(1) [OF assms] by (intro round_half_even_mono) simp
  then have lo: "(2::int) ^ 52 \<le> ?m" by (simp only: round_half_even_of_int)
  have "?m \<le> round_half_even (of_int (2 ^ 53))"
    using scaled_bounds(2) [OF assms] by (intro round_half_even_mono) simp
  then have hi: "?m \<le> (2::int) ^ 53" by (simp only: round_half_even_of_int)
  have "(of_int (2 ^ 52) :: rat) \<le> of_int ?m" using lo by (simp only: of_int_le_iff)
  then have "(of_int (2 ^ 52) :: rat) * ?u \<le> of_int ?m * ?u"
    using pow2_pos [of "binade q - 52"] by (intro mult_right_mono) simp_all
  moreover have "(of_int (2 ^ 52) :: rat) * ?u = pow2 (binade q)"
    using pow2_add [of 52 "binade q - 52"] by (simp add: pow2_numeral)
  ultimately show "pow2 (binade q) \<le> fl q" by (simp add: fl_pos [OF assms])
  have "(of_int ?m :: rat) \<le> of_int (2 ^ 53)" using hi by (simp only: of_int_le_iff)
  then have "of_int ?m * ?u \<le> (of_int (2 ^ 53) :: rat) * ?u"
    using pow2_pos [of "binade q - 52"] by (intro mult_right_mono) simp_all
  moreover have "(of_int (2 ^ 53) :: rat) * ?u = pow2 (binade q + 1)"
    using pow2_add [of 53 "binade q - 52"] by (simp add: pow2_numeral add.commute)
  ultimately show "fl q \<le> pow2 (binade q + 1)" by (simp add: fl_pos [OF assms])
qed

lemma fl_nonneg: "0 \<le> q \<Longrightarrow> 0 \<le> fl q"
  using fl_binade_bounds(1) [of q] pow2_pos [of "binade q"] by (cases "q = 0") (auto simp: fl_0)

lemma fl_pos_pos: "0 < q \<Longrightarrow> 0 < fl q"
  using fl_binade_bounds(1) [of q] pow2_pos [of "binade q"] by auto

lemma fl_mono:
  assumes "0 \<le> q" "q \<le> r"
  shows "fl q \<le> fl r"
proof (cases "q = 0")
  case True
  then show ?thesis using fl_nonneg [of r] assms by (simp add: fl_0)
next
  case False
  then have q: "0 < q" using assms by simp
  then have r: "0 < r" using assms by simp
  show ?thesis
  proof (cases "binade q = binade r")
    case True
    have "q / pow2 (binade r - 52) \<le> r / pow2 (binade r - 52)"
      using assms(2) pow2_pos [of "binade r - 52"] by (simp add: divide_right_mono)
    then have "round_half_even (q / pow2 (binade r - 52))
        \<le> round_half_even (r / pow2 (binade r - 52))"
      by (rule round_half_even_mono)
    then have "(of_int (round_half_even (q / pow2 (binade r - 52))) :: rat) * pow2 (binade r - 52)
        \<le> of_int (round_half_even (r / pow2 (binade r - 52))) * pow2 (binade r - 52)"
      using pow2_pos [of "binade r - 52"] by (intro mult_right_mono) simp_all
    then show ?thesis by (simp add: fl_pos [OF q] fl_pos [OF r] True)
  next
    case False
    then have "binade q + 1 \<le> binade r" using binade_mono [OF q assms(2)] by simp
    then have "pow2 (binade q + 1) \<le> pow2 (binade r)" by (rule pow2_mono)
    then show ?thesis
      using fl_binade_bounds(2) [OF q] fl_binade_bounds(1) [OF r] by simp
  qed
qed

lemma fl_exact:
  assumes "0 \<le> n" "n < 2 ^ 53"
  shows "fl (of_int n * pow2 k) = of_int n * pow2 k"
proof (cases "n = 0")
  case True
  then show ?thesis by (simp add: fl_0)
next
  case False
  then have n: "0 < n" using assms by simp
  let ?q = "of_int n * pow2 k :: rat"
  have q: "0 < ?q" using n pow2_pos [of k] by simp
  let ?e = "binade ?q"
  have "(of_int n :: rat) < of_int (2 ^ 53)" using assms(2) by (simp only: of_int_less_iff)
  then have "?q < of_int (2 ^ 53) * pow2 k"
    using pow2_pos [of k] by (intro mult_strict_right_mono) simp_all
  also have "\<dots> = pow2 (53 + k)" using pow2_add [of 53 k] by (simp add: pow2_numeral)
  finally have "pow2 ?e < pow2 (53 + k)" using binade_bounds(1) [OF q] by simp
  then have "?e < 53 + k" by (rule pow2_less_imp)
  then have j: "0 \<le> k - (?e - 52)" by simp
  have "?q / pow2 (?e - 52) = of_int n * pow2 (k - (?e - 52))"
    by (simp add: pow2_diff)
  also have "\<dots> = of_int (n * 2 ^ nat (k - (?e - 52)))"
    using j by (simp add: pow2_nat)
  finally have "round_half_even (?q / pow2 (?e - 52)) = n * 2 ^ nat (k - (?e - 52))"
    by (simp only: round_half_even_of_int)
  then have "fl ?q = of_int (n * 2 ^ nat (k - (?e - 52))) * pow2 (?e - 52)"
    by (simp only: fl_pos [OF q])
  also have "\<dots> = of_int n * (pow2 (k - (?e - 52)) * pow2 (?e - 52))"
    using j by (simp add: pow2_nat)
  also have "pow2 (k - (?e - 52)) * pow2 (?e - 52) = pow2 k"
    by (simp add: pow2_add [symmetric])
  finally show ?thesis .
qed

lemma fl_of_nat: "n < 2 ^ 53 \<Longrightarrow> fl (of_nat n) = of_nat n"
proof -
  assume "n < 2 ^ 53"
  then have "int n < 2 ^ 53" by (metis of_nat_less_iff of_nat_numeral of_nat_power)
  then show ?thesis using fl_exact [of "int n" 0] by (simp add: pow2_def)
qed

lemma fl_error:
  assumes "0 < q"
  shows "\<bar>fl q - q\<bar> \<le> q / 2 ^ 53"
proof -
  let ?u = "pow2 (binade q - 52)"
  have u: "0 < ?u" by (rule pow2_pos)
  have "fl q - q = (of_int (round_half_even (q / ?u)) - q / ?u) * ?u"
    using u by (simp add: fl_pos [OF assms] left_diff_distrib)
  then have "\<bar>fl q - q\<bar> = \<bar>of_int (round_half_even (q / ?u)) - q / ?u\<bar> * ?u"
    using u by (simp only: abs_mult abs_of_pos)
  also have "\<dots> \<le> 1 / 2 * ?u"
    using round_half_even_error [of "q / ?u"] u by (intro mult_right_mono) simp_all
  also have "\<dots> = pow2 (binade q) / 2 ^ 53"
    by (simp add: pow2_diff pow2_numeral)
  also have "\<dots> \<le> q / 2 ^ 53"
    using binade_bounds(1) [OF assms] by (simp add: divide_right_mono)
  finally show ?thesis .
qed

section \<open>The scorer\<close>

lemma count_loop_filter:
  "count_loop refWords attWords i correct =
     correct + length (filter (\<lambda>j. refWords ! j = attWords ! j)
                 [i..<min (length refWords) (length attWords)])"
proof (induction refWords attWords i correct rule: count_loop.induct)
  case (1 refWords attWords i correct)
  define n where "n = min (length refWords) (length attWords)"
  have step: "count_loop refWords attWords i correct =
      (if i < n then count_loop refWords attWords (i + 1)
             (if refWords ! i = attWords ! i then correct + 1 else correct)
       else correct)"
    unfolding n_def by (rule count_loop.simps)
  show ?case
  proof (cases "i < n")
    case False
    then have "[i..<n] = []" by simp
    then show ?thesis using False unfolding n_def [symmetric] step by simp
  next
    case True
    then have "[i..<n] = i # [i + 1..<n]" by (simp add: upt_rec)
    moreover have "count_loop refWords attWords (i + 1)
          (if refWords ! i = attWords ! i then correct + 1 else correct) =
        (if refWords ! i = attWords ! i then correct + 1 else correct) +
        length (filter (\<lambda>j. refWords ! j = attWords ! j) [i + 1..<n])"
      unfolding n_def using True by (intro "1.IH") (simp add: n_def)
    ultimately show ?thesis using True unfolding n_def [symmetric] step by simp
  qed
qed

lemma count_loop_positional_matches:
  "count_loop refWords attWords 0 0 = positional_matches refWords attWords"
  by (simp add: count_loop_filter positional_matches_def)

lemma positional_matches_le: "positional_matches refWords attWords \<le> length refWords"
proof -
  have "positional_matches refWords attWords
      \<le> length [0..<min (length refWords) (length attWords)]"
    unfolding positional_matches_def by (rule length_filter_le)
  then show ?thesis by simp
qed

lemma fl_1: "fl 1 = 1"
  using fl_exact [of 1 0] by (simp add: pow2_def)

lemma fl_100: "fl 100 = 100"
  using fl_exact [of 100 0] by (simp add: pow2_def)

lemma quotient_bounds:
  assumes "correct \<le> divisor" "0 < divisor"
  shows "0 \<le> fl (of_nat correct / of_nat divisor)" "fl (of_nat correct / of_nat divisor) \<le> 1"
proof -
  have q: "(0::rat) \<le> of_nat correct / of_nat divisor" by simp
  have "(of_nat correct :: rat) \<le> of_nat divisor" using assms(1) by simp
  then have q1: "(of_nat correct :: rat) / of_nat divisor \<le> 1" using assms(2) by simp
  show "0 \<le> fl (of_nat correct / of_nat divisor)" using q by (rule fl_nonneg)
  show "fl (of_nat correct / of_nat divisor) \<le> 1" using fl_mono [OF q q1] by (simp add: fl_1)
qed

lemma product_bounds:
  assumes "correct \<le> divisor" "0 < divisor"
  shows "0 \<le> js_mul (js_div (of_nat correct) (of_nat divisor)) 100"
    "js_mul (js_div (of_nat correct) (of_nat divisor)) 100 \<le> 100"
proof -
  let ?x = "fl (of_nat correct / of_nat divisor)"
  have x: "0 \<le> ?x * 100" "?x * 100 \<le> 100"
    using quotient_bounds [OF assms] by simp_all
  show "0 \<le> js_mul (js_div (of_nat correct) (of_nat divisor)) 100"
    using fl_nonneg [OF x(1)] by (simp add: js_mul_def js_div_def)
  show "js_mul (js_div (of_nat correct) (of_nat divisor)) 100 \<le> 100"
    using fl_mono [OF x] by (simp add: js_mul_def js_div_def fl_100)
qed

lemma percent_bounds:
  assumes "correct \<le> divisor" "0 < divisor"
  shows "0 \<le> percent correct divisor" "percent correct divisor \<le> 100"
proof -
  let ?y = "js_mul (js_div (of_nat correct) (of_nat divisor)) 100"
  have "0 \<le> ?y + 1 / 2" using product_bounds(1) [OF assms] by simp
  then show "0 \<le> percent correct divisor" by (simp add: percent_def Math_round_def)
  have "?y + 1 / 2 < of_int 100 + 1" using product_bounds(2) [OF assms] by simp
  then show "percent correct divisor \<le> 100"
    unfolding percent_def Math_round_def by (simp only: floor_le_iff)
qed

lemma percent_mono:
  assumes "c1 \<le> c2"
  shows "percent c1 divisor \<le> percent c2 divisor"
proof -
  have q: "(0::rat) \<le> of_nat c1 / of_nat divisor" by simp
  have "(of_nat c1 :: rat) / of_nat divisor \<le> of_nat c2 / of_nat divisor"
    using assms by (simp add: divide_right_mono)
  then have f: "fl (of_nat c1 / of_nat divisor) \<le> fl (of_nat c2 / of_nat divisor)"
    using q by (intro fl_mono)
  have "0 \<le> fl (of_nat c1 / of_nat divisor) * 100" using fl_nonneg [OF q] by simp
  moreover have "fl (of_nat c1 / of_nat divisor) * 100 \<le> fl (of_nat c2 / of_nat divisor) * 100"
    using f by simp
  ultimately have "fl (fl (of_nat c1 / of_nat divisor) * 100)
      \<le> fl (fl (of_nat c2 / of_nat divisor) * 100)"
    by (rule fl_mono)
  then show ?thesis
    unfolding percent_def Math_round_def js_mul_def js_div_def by (intro floor_mono) simp
qed

lemma calcStats_fields:
  "totalWords (calcStats U r a opts) = length (splitWords (normalize_text U r opts))"
  "wordsTyped (calcStats U r a opts) = length (splitWords (normalize_text U a opts))"
  "accuracy (calcStats U r a opts) =
     max 0 (min 100 (percent
       (positional_matches (splitWords (normalize_text U r opts))
          (splitWords (normalize_text U a opts)))
       (max 1 (length (splitWords (normalize_text U r opts))))))"
proof -
  have t: "(if length ws = 0 then 1 else length ws) = max 1 (length ws)" for ws :: "jsstring list"
    by (cases ws) simp_all
  show "totalWords (calcStats U r a opts) = length (splitWords (normalize_text U r opts))"
    "wordsTyped (calcStats U r a opts) = length (splitWords (normalize_text U a opts))"
    by (simp_all add: calcStats_def Let_def)
  show "accuracy (calcStats U r a opts) =
     max 0 (min 100 (percent
       (positional_matches (splitWords (normalize_text U r opts))
          (splitWords (normalize_text U a opts)))
       (max 1 (length (splitWords (normalize_text U r opts))))))"
    unfolding calcStats_def Let_def t count_loop_positional_matches percent_def by simp
qed

lemma calcStats_accuracy_percent:
  "accuracy (calcStats U r a opts) =
     percent (positional_matches (splitWords (normalize_text U r opts))
                (splitWords (normalize_text U a opts)))
       (max 1 (length (splitWords (normalize_text U r opts))))"
proof -
  let ?c = "positional_matches (splitWords (normalize_text U r opts))
                (splitWords (normalize_text U a opts))"
  let ?t = "max 1 (length (splitWords (normalize_text U r opts)))"
  have "?c \<le> ?t" using positional_matches_le [of "splitWords (normalize_text U r opts)"
        "splitWords (normalize_text U a opts)"] by simp
  moreover have "0 < ?t" by simp
  ultimately have "0 \<le> percent ?c ?t" "percent ?c ?t \<le> 100"
    by (rule percent_bounds)+
  then show ?thesis by (simp add: calcStats_fields(3))
qed

text \<open>
  C9. The number of positional matches counted by \<open>calcStats\<close> never exceeds
  \<open>max(1, totalWords)\<close>, so the rounded percentage already lies between 0 and 100 before
  \<open>Math.max\<close> and \<open>Math.min\<close> are applied: the clamp never changes the value, and the
  accuracy returned is an integer from 0 to 100.
\<close>

theorem clamp_is_identity:
  "(let refWords = splitWords (normalize_text U r opts);
        attWords = splitWords (normalize_text U a opts);
        correct = count_loop refWords attWords 0 0;
        total = (if length refWords = 0 then 1 else length refWords);
        rounded = Math_round (js_mul (js_div (of_nat correct) (of_nat total)) 100)
    in correct \<le> max 1 (totalWords (calcStats U r a opts)) \<and>
       0 \<le> rounded \<and> rounded \<le> 100 \<and>
       accuracy (calcStats U r a opts) = rounded)"
proof -
  let ?rw = "splitWords (normalize_text U r opts)"
  let ?aw = "splitWords (normalize_text U a opts)"
  have t: "(if length ?rw = 0 then 1 else length ?rw) = max 1 (length ?rw)"
    by (cases ?rw) simp_all
  have c: "positional_matches ?rw ?aw \<le> max 1 (length ?rw)"
    using positional_matches_le [of ?rw ?aw] by simp
  have p: "0 \<le> percent (positional_matches ?rw ?aw) (max 1 (length ?rw))"
    "percent (positional_matches ?rw ?aw) (max 1 (length ?rw)) \<le> 100"
    using c by (intro percent_bounds; simp)+
  show ?thesis
    unfolding Let_def t count_loop_positional_matches calcStats_fields(1)
      percent_def [symmetric] calcStats_accuracy_percent
    by (intro conjI c p refl)
qed

text \<open>
  C6. For a fixed reference and fixed options, an attempt with at least as many positional
  matches as another has at least the accuracy of the other.
\<close>

theorem accuracy_monotone:
  assumes "positional_matches (splitWords (normalize_text U r opts))
             (splitWords (normalize_text U a1 opts))
         \<le> positional_matches (splitWords (normalize_text U r opts))
             (splitWords (normalize_text U a2 opts))"
  shows "accuracy (calcStats U r a1 opts) \<le> accuracy (calcStats U r a2 opts)"
  unfolding calcStats_accuracy_percent using assms by (rule percent_mono)

lemma calcStats_eq:
  "calcStats U r a opts =
     \<lparr> accuracy = max 0 (min 100 (percent
          (count_loop (splitWords (normalize_text U r opts))
             (splitWords (normalize_text U a opts)) 0 0)
          (max 1 (length (splitWords (normalize_text U r opts)))))),
       wordsTyped = length (splitWords (normalize_text U a opts)),
       totalWords = length (splitWords (normalize_text U r opts)) \<rparr>"
proof -
  have t: "(if length ws = 0 then 1 else length ws) = max 1 (length ws)" for ws :: "jsstring list"
    by (cases ws) simp_all
  show ?thesis unfolding calcStats_def Let_def t percent_def by simp
qed

lemma percent_2_3: "percent 2 3 = 67" by code_simp
lemma percent_23_40: "percent 23 40 = 57" by code_simp
lemma exact_23_40: "exact_accuracy 23 40 = 58" by code_simp

lemma example_score:
  "calcStats basic_latin (js ''one two three'') (js ''one two'')
     \<lparr> ignoreCase = True, ignorePunc = False \<rparr> =
   \<lparr> accuracy = 67, wordsTyped = 2, totalWords = 3 \<rparr>"
proof -
  have n: "normalize_text basic_latin (js ''one two three'')
      \<lparr> ignoreCase = True, ignorePunc = False \<rparr> = js ''one two three''"
    "normalize_text basic_latin (js ''one two'')
      \<lparr> ignoreCase = True, ignorePunc = False \<rparr> = js ''one two''"
    by (simp_all add: string_eval)
  have sw: "splitWords (js ''one two three'') = [js ''one'', js ''two'', js ''three'']"
    "splitWords (js ''one two'') = [js ''one'', js ''two'']"
    by (simp_all add: words_eval js_def)
  have c: "count_loop [js ''one'', js ''two'', js ''three''] [js ''one'', js ''two''] 0 0 = 2"
    by (simp add: count_loop.simps)
  have l: "max 1 (length [js ''one'', js ''two'', js ''three'']) = 3" by simp
  show ?thesis unfolding calcStats_eq n sw c l by (simp add: percent_2_3)
qed



lemma join_space_hd:
  assumes "ws \<noteq> []" "\<forall>w \<in> set ws. plain_word w"
  shows "join_space ws \<noteq> [] \<and> \<not> isWhiteSpace (hd (join_space ws)) \<and>
         \<not> isWhiteSpace (last (join_space ws))"
  using assms
proof (induction ws rule: join_space.induct)
  case 1
  then show ?case by simp
next
  case (2 w)
  then show ?case by (auto simp: plain_word_def)
next
  case (3 w v r)
  then have "join_space (v # r) \<noteq> []" "\<not> isWhiteSpace (last (join_space (v # r)))"
    by simp_all
  moreover have "w \<noteq> []" "\<not> isWhiteSpace (hd w)" using "3.prems" by (auto simp: plain_word_def)
  ultimately show ?case by (simp add: hd_append)
qed

lemma split_ws_join:
  assumes "ws \<noteq> []" "\<forall>w \<in> set ws. plain_word w"
  shows "split_ws (join_space ws) = ws"
  using assms
proof (induction ws rule: join_space.induct)
  case 1
  then show ?case by simp
next
  case (2 w)
  then have d: "dropWhile (\<lambda>u. \<not> isWhiteSpace u) w = []" by (simp add: plain_word_def)
  show ?case by (subst split_ws.simps) (simp add: d)
next
  case (3 w v r)
  have w: "\<forall>u \<in> set w. \<not> isWhiteSpace u" using "3.prems" by (simp add: plain_word_def)
  have sp: "isWhiteSpace 0x20" by (simp add: isWhiteSpace_def)
  let ?rest = "join_space (v # r)"
  have rest: "?rest \<noteq> []" "\<not> isWhiteSpace (hd ?rest)"
    using join_space_hd [of "v # r"] "3.prems" by simp_all
  have d: "dropWhile (\<lambda>u. \<not> isWhiteSpace u) (w @ 0x20 # ?rest) = 0x20 # ?rest"
    using w sp by (simp add: dropWhile_append3)
  have t: "takeWhile (\<lambda>u. \<not> isWhiteSpace u) (w @ 0x20 # ?rest) = w"
    using w sp by (simp add: takeWhile_append2 takeWhile_tail)
  have d2: "dropWhile isWhiteSpace (0x20 # ?rest) = ?rest"
    using rest sp by (cases ?rest) simp_all
  have "split_ws (w @ 0x20 # ?rest) = w # split_ws ?rest"
    by (subst split_ws.simps) (simp only: d t d2 list.case)
  then show ?case using "3.IH" "3.prems" by simp
qed

lemma trim_join:
  assumes "ws \<noteq> []" "\<forall>w \<in> set ws. plain_word w"
  shows "trim (join_space ws) = join_space ws"
proof -
  let ?s = "join_space ws"
  have s: "?s \<noteq> []" "\<not> isWhiteSpace (hd ?s)" "\<not> isWhiteSpace (last ?s)"
    using join_space_hd [OF assms] by simp_all
  have "dropWhile isWhiteSpace ?s = ?s" using s by (cases ?s) simp_all
  moreover have "dropWhile isWhiteSpace (rev ?s) = rev ?s"
    using s by (cases "rev ?s") (simp_all add: last_rev [symmetric] hd_rev)
  ultimately show ?thesis by (simp add: trim_def)
qed

lemma splitWords_join:
  assumes "\<forall>w \<in> set ws. plain_word w"
  shows "splitWords (join_space ws) = ws"
proof (cases "ws = []")
  case True
  then show ?thesis by (simp add: splitWords_Nil)
next
  case False
  have "filter (\<lambda>w. w \<noteq> []) ws = ws" using assms by (simp add: plain_word_def)
  then show ?thesis
    by (simp add: splitWords_def trim_join [OF False assms] split_ws_join [OF False assms])
qed

lemma positional_matches_replicate:
  "positional_matches (replicate m w) (replicate n w) = min m n"
proof -
  have "filter (\<lambda>i. replicate m w ! i = replicate n w ! i) [0..<min m n] = [0..<min m n]"
    by (rule filter_True) simp
  then show ?thesis by (simp add: positional_matches_def)
qed

lemma forty_words:
  "js ''a a a a a a a a a a a a a a a a a a a a a a a a a a a a a a a a a a a a a a a a'' = join_space (replicate 40 (js ''a''))"
  by (simp add: js_def numeral_eq_Suc)

lemma twentythree_words:
  "js ''a a a a a a a a a a a a a a a a a a a a a a a'' = join_space (replicate 23 (js ''a''))"
  by (simp add: js_def numeral_eq_Suc)

lemma plain_a: "\<forall>w \<in> set (replicate n (js ''a'')). plain_word w"
  by (simp add: plain_word_def js_def isWhiteSpace_def)

text \<open>
  C1 as stated fails where the exact percentage is half-way between two integers: for a
  reference of 40 words and an attempt repeating its first 23, \<open>23 / 40\<close> is a double
  just below 0.575, the product is \<open>57.49999999999999\<close>, and the accuracy is 57, while
  \<open>round(23 / 40 * 100)\<close> is 58.
\<close>

theorem accuracy_differs_from_exact:
  "accuracy (calcStats basic_latin (js ''a a a a a a a a a a a a a a a a a a a a a a a a a a a a a a a a a a a a a a a a'') (js ''a a a a a a a a a a a a a a a a a a a a a a a'')
      \<lparr> ignoreCase = False, ignorePunc = False \<rparr>) = 57 \<and>
   exact_accuracy
     (positional_matches
        (splitWords (normalize_text basic_latin (js ''a a a a a a a a a a a a a a a a a a a a a a a a a a a a a a a a a a a a a a a a'')
           \<lparr> ignoreCase = False, ignorePunc = False \<rparr>))
        (splitWords (normalize_text basic_latin (js ''a a a a a a a a a a a a a a a a a a a a a a a'')
           \<lparr> ignoreCase = False, ignorePunc = False \<rparr>)))
     (length (splitWords (normalize_text basic_latin (js ''a a a a a a a a a a a a a a a a a a a a a a a a a a a a a a a a a a a a a a a a'')
           \<lparr> ignoreCase = False, ignorePunc = False \<rparr>))) = 58"
proof -
  have n: "normalize_text basic_latin (js ''a a a a a a a a a a a a a a a a a a a a a a a a a a a a a a a a a a a a a a a a'') \<lparr> ignoreCase = False, ignorePunc = False \<rparr>
      = js ''a a a a a a a a a a a a a a a a a a a a a a a a a a a a a a a a a a a a a a a a''"
    "normalize_text basic_latin (js ''a a a a a a a a a a a a a a a a a a a a a a a'') \<lparr> ignoreCase = False, ignorePunc = False \<rparr>
      = js ''a a a a a a a a a a a a a a a a a a a a a a a''"
    by (simp_all add: normalize_text_def sanitize_def js_def)
  have sw: "splitWords (js ''a a a a a a a a a a a a a a a a a a a a a a a a a a a a a a a a a a a a a a a a'') = replicate 40 (js ''a'')"
    "splitWords (js ''a a a a a a a a a a a a a a a a a a a a a a a'') = replicate 23 (js ''a'')"
    unfolding forty_words twentythree_words by (rule splitWords_join [OF plain_a])+
  show ?thesis
    unfolding calcStats_accuracy_percent n sw positional_matches_replicate
    by (simp add: percent_23_40 exact_23_40)
qed

lemma round_near:
  fixes A B :: nat
  assumes B: "0 < B" and near: "\<bar>y - of_nat A / of_nat B\<bar> < 1 / (2 * of_nat B)"
  shows "Math_round y = round_half_up (of_nat A / of_nat B) \<or>
         (at_half (of_nat A / of_nat B) \<and>
          Math_round y = round_half_up (of_nat A / of_nat B) - 1)"
proof -
  define X :: rat where "X = of_nat A / of_nat B + 1 / 2"
  define D :: rat where "D = 2 * of_nat B"
  define R where "R = \<lfloor>X\<rfloor>"
  define Y where "Y = y + 1 / 2"
  define k where "k = int (2 * A + B) - R * int (2 * B)"
  have D: "0 < D" "2 \<le> D" using B by (simp_all add: D_def)
  have XD: "X * D = of_int (int (2 * A + B))"
    using B by (simp add: X_def D_def field_simps)
  have "(X - of_int R) * D = of_int k"
    unfolding left_diff_distrib XD by (simp add: k_def D_def)
  then have fr: "X - of_int R = of_int k / D" using D by (simp add: field_simps)
  have X0: "of_int R \<le> X" and X1: "X < of_int R + 1" unfolding R_def by linarith+
  have "0 \<le> (of_int k :: rat) / D" using X0 fr by simp
  then have "(0::rat) \<le> of_int k" using D by (simp add: zero_le_divide_iff)
  then have k0: "0 \<le> k" by simp
  have d: "\<bar>Y - X\<bar> < 1 / D" using near by (simp add: Y_def X_def D_def)
  have D1: "1 / D \<le> 1 / 2" using D by (simp add: field_simps)
  have goal: "\<lfloor>Y\<rfloor> = R \<or> (of_int R = X \<and> \<lfloor>Y\<rfloor> = R - 1)"
  proof (cases "k = 0")
    case True
    then have XR: "X = of_int R" using fr by simp
    show ?thesis
    proof (cases "of_int R \<le> Y")
      case True
      moreover have "Y < of_int R + 1" using d D1 XR by (simp add: abs_less_iff)
      ultimately have "\<lfloor>Y\<rfloor> = R" by (rule floor_unique)
      then show ?thesis by simp
    next
      case False
      then have "Y < of_int (R - 1) + 1" by simp
      moreover have "of_int (R - 1) \<le> Y" using d D1 XR by (simp add: abs_less_iff)
      ultimately have "\<lfloor>Y\<rfloor> = R - 1" by (intro floor_unique)
      then show ?thesis using XR by simp
    qed
  next
    case False
    then have "1 \<le> k" using k0 by simp
    then have "(1::rat) \<le> of_int k" by simp
    then have lo: "1 / D \<le> X - of_int R" unfolding fr using D by (simp add: divide_right_mono)
    have "(1 - (X - of_int R)) * D = of_int (int (2 * B) - k)"
      unfolding fr using D by (simp add: field_simps D_def)
    moreover have "0 < (1 - (X - of_int R)) * D" using X1 D by simp
    ultimately have "(0::rat) < of_int (int (2 * B) - k)" by simp
    then have "0 < int (2 * B) - k" by (simp only: of_int_0_less_iff)
    then have "1 \<le> int (2 * B) - k" by simp
    then have "(1::rat) \<le> of_int (int (2 * B) - k)" by (simp only: of_int_1_le_iff)
    then have "(1::rat) \<le> D - of_int k" by (simp add: D_def)
    then have "1 / D \<le> (D - of_int k) / D" using D by (simp add: divide_right_mono)
    then have hi: "X - of_int R \<le> 1 - 1 / D" unfolding fr using D by (simp add: field_simps)
    have "of_int R \<le> Y" using d lo by (simp add: abs_less_iff)
    moreover have "Y < of_int R + 1" using d hi by (simp add: abs_less_iff)
    ultimately have "\<lfloor>Y\<rfloor> = R" by (rule floor_unique)
    then show ?thesis by simp
  qed
  have "at_half (of_nat A / of_nat B) \<longleftrightarrow> of_int R = X"
    by (simp add: at_half_def R_def X_def)
  then show ?thesis
    using goal by (simp add: Math_round_def round_half_up_def Y_def R_def X_def)
qed

lemma percent_error:
  assumes "c \<le> t" "0 < t"
  shows "\<bar>js_mul (js_div (of_nat c) (of_nat t)) 100 - of_nat c / of_nat t * 100\<bar> \<le> 200 / 2 ^ 53"
proof (cases "c = 0")
  case True
  then show ?thesis by (simp add: js_mul_def js_div_def fl_0)
next
  case False
  define q1 :: rat where "q1 = of_nat c / of_nat t"
  define f1 where "f1 = fl q1"
  have q1: "0 < q1" using False assms by (simp add: q1_def)
  have q1le: "q1 \<le> 1" using assms by (simp add: q1_def)
  have f1: "0 < f1" unfolding f1_def using q1 by (rule fl_pos_pos)
  have f1le: "f1 \<le> 1" unfolding f1_def q1_def using quotient_bounds(2) [OF assms] .
  have e1: "\<bar>f1 - q1\<bar> \<le> 1 / 2 ^ 53"
  proof -
    have "\<bar>f1 - q1\<bar> \<le> q1 / 2 ^ 53" unfolding f1_def using q1 by (rule fl_error)
    also have "\<dots> \<le> 1 / 2 ^ 53" using q1le by (simp add: divide_right_mono)
    finally show ?thesis .
  qed
  have q2: "0 < f1 * 100" using f1 by simp
  have e2: "\<bar>fl (f1 * 100) - f1 * 100\<bar> \<le> 100 / 2 ^ 53"
  proof -
    have "\<bar>fl (f1 * 100) - f1 * 100\<bar> \<le> f1 * 100 / 2 ^ 53" using q2 by (rule fl_error)
    also have "\<dots> \<le> 100 / 2 ^ 53" using f1le by (simp add: divide_right_mono)
    finally show ?thesis .
  qed
  have "\<bar>fl (f1 * 100) - q1 * 100\<bar> \<le> \<bar>fl (f1 * 100) - f1 * 100\<bar> + \<bar>f1 - q1\<bar> * 100"
    by (simp add: abs_if split: if_splits)
  also have "\<dots> \<le> 100 / 2 ^ 53 + 1 / 2 ^ 53 * 100"
    using e1 e2 by (intro add_mono mult_right_mono) simp_all
  finally show ?thesis by (simp add: js_mul_def js_div_def f1_def q1_def)
qed

lemma exact_accuracy_unclamped:
  assumes "c \<le> max 1 n"
  shows "exact_accuracy c n = round_half_up (of_nat (100 * c) / of_nat (max 1 n))"
proof -
  let ?x = "of_nat (100 * c) / of_nat (max 1 n) :: rat"
  have "(of_nat c :: rat) \<le> of_nat (max 1 n)" using assms by (simp only: of_nat_le_iff)
  then have "?x \<le> 100" by (simp add: field_simps)
  then have "?x + 1 / 2 < of_int 100 + 1" by simp
  then have hi: "round_half_up ?x \<le> 100"
    unfolding round_half_up_def by (simp only: floor_le_iff)
  have "0 \<le> ?x + 1 / 2" by simp
  then have lo: "0 \<le> round_half_up ?x" unfolding round_half_up_def by simp
  have eq: "of_nat c / of_nat (max 1 n) * 100 = ?x" by simp
  have "max 0 (min 100 z) = z" if "0 \<le> z" "z \<le> 100" for z :: int
    using that by simp
  from this [OF lo hi] show ?thesis unfolding exact_accuracy_def eq .
qed

lemma percent_vs_exact:
  assumes "c \<le> max 1 n" "n < 2 ^ 32"
  shows "percent c (max 1 n) = exact_accuracy c n \<or>
         (at_half (of_nat (100 * c) / of_nat (max 1 n)) \<and>
          percent c (max 1 n) = exact_accuracy c n - 1)"
proof -
  let ?t = "max 1 n"
  have t: "0 < ?t" by simp
  have "?t < 2 ^ 32" using assms(2) by simp
  then have "(of_nat ?t :: rat) < of_nat (2 ^ 32)" by (simp only: of_nat_less_iff)
  then have tb: "(of_nat ?t :: rat) < 2 ^ 32" by simp
  have "(200::rat) / 2 ^ 53 * (2 * of_nat ?t) < 200 / 2 ^ 53 * (2 * 2 ^ 32)"
    using tb by (intro mult_strict_left_mono) simp_all
  also have "\<dots> < 1" by simp
  finally have bound: "(200::rat) / 2 ^ 53 < 1 / (2 * of_nat ?t)"
    using t by (simp add: field_simps)
  have eq: "of_nat c / of_nat ?t * 100 = (of_nat (100 * c) :: rat) / of_nat ?t" by simp
  have "\<bar>js_mul (js_div (of_nat c) (of_nat ?t)) 100 - of_nat (100 * c) / of_nat ?t\<bar>
      \<le> 200 / 2 ^ 53"
    using percent_error [OF assms(1) t] by (simp only: eq)
  then have "\<bar>js_mul (js_div (of_nat c) (of_nat ?t)) 100 - of_nat (100 * c) / of_nat ?t\<bar>
      < 1 / (2 * of_nat ?t)"
    using bound by (rule le_less_trans)
  from round_near [OF t this] show ?thesis
    unfolding exact_accuracy_unclamped [OF assms(1)] percent_def .
qed

lemma calcStats_empty_reference:
  "totalWords (calcStats U [] a opts) = 0" "accuracy (calcStats U [] a opts) = 0"
proof -
  show "totalWords (calcStats U [] a opts) = 0"
    by (simp add: calcStats_fields(1) normalize_text_Nil splitWords_Nil)
  have "positional_matches [] ws = 0" for ws :: "jsstring list"
    by (simp add: positional_matches_def)
  moreover have "percent 0 1 = 0" by code_simp
  ultimately show "accuracy (calcStats U [] a opts) = 0"
    by (simp add: calcStats_accuracy_percent normalize_text_Nil splitWords_Nil)
qed

text \<open>
  C1, as amended. \<open>calcStats\<close> returns \<open>totalWords\<close> = the number of normalised
  reference words, \<open>wordsTyped\<close> = the number of normalised attempt words, and
  \<open>accuracy\<close> = \<open>Math.round\<close> of the double \<open>(correct / max(1, totalWords)) * 100\<close>
  clamped to \<open>[0, 100]\<close>, where \<open>correct\<close> is the number of indices below both lengths
  with equal words and both the quotient and the product are rounded to doubles. For a
  reference of fewer than \<open>2^32\<close> words the accuracy is the exact percentage rounded half
  up, except that it may be one less where the exact percentage is half-way between two
  integers. The score of \<open>one two three\<close> against \<open>one two\<close> is 67, 2, 3, and an empty
  reference gives \<open>totalWords\<close> = 0 and \<open>accuracy\<close> = 0.
\<close>

theorem calcStats_result:
  "(let refWords = splitWords (normalize_text U r opts);
        attWords = splitWords (normalize_text U a opts);
        correct = positional_matches refWords attWords;
        divisor = max 1 (length refWords)
    in totalWords (calcStats U r a opts) = length refWords \<and>
       wordsTyped (calcStats U r a opts) = length attWords \<and>
       accuracy (calcStats U r a opts) =
         max 0 (min 100 (Math_round (fl (fl (of_nat correct / of_nat divisor) * 100)))) \<and>
       (length refWords < 2 ^ 32 \<longrightarrow>
          accuracy (calcStats U r a opts) = exact_accuracy correct (length refWords) \<or>
          (at_half (of_nat (100 * correct) / of_nat divisor) \<and>
           accuracy (calcStats U r a opts) = exact_accuracy correct (length refWords) - 1))) \<and>
   calcStats basic_latin (js ''one two three'') (js ''one two'')
     \<lparr> ignoreCase = True, ignorePunc = False \<rparr> =
     \<lparr> accuracy = 67, wordsTyped = 2, totalWords = 3 \<rparr> \<and>
   totalWords (calcStats U [] a opts) = 0 \<and> accuracy (calcStats U [] a opts) = 0"
proof -
  let ?rw = "splitWords (normalize_text U r opts)"
  let ?aw = "splitWords (normalize_text U a opts)"
  have c: "positional_matches ?rw ?aw \<le> max 1 (length ?rw)"
    using positional_matches_le [of ?rw ?aw] by simp
  have near: "length ?rw < 2 ^ 32 \<longrightarrow>
      accuracy (calcStats U r a opts) = exact_accuracy (positional_matches ?rw ?aw) (length ?rw) \<or>
      (at_half (of_nat (100 * positional_matches ?rw ?aw) / of_nat (max 1 (length ?rw))) \<and>
       accuracy (calcStats U r a opts) =
         exact_accuracy (positional_matches ?rw ?aw) (length ?rw) - 1)"
    unfolding calcStats_accuracy_percent using percent_vs_exact [OF c] by blast
  have acc: "accuracy (calcStats U r a opts) =
      max 0 (min 100 (Math_round (fl (fl (of_nat (positional_matches ?rw ?aw)
        / of_nat (max 1 (length ?rw))) * 100))))"
    using calcStats_fields(3) [of U r a opts] by (simp only: percent_def js_mul_def js_div_def)
  show ?thesis
    unfolding Let_def
    by (intro conjI calcStats_fields(1,2) acc near example_score calcStats_empty_reference)
qed

theorem calcStats_result_witness:
  "length (splitWords (normalize_text basic_latin (js ''one two three'')
      \<lparr> ignoreCase = True, ignorePunc = False \<rparr>)) < 2 ^ 32 \<and>
   accuracy (calcStats basic_latin (js ''one two three'') (js ''one'')
      \<lparr> ignoreCase = True, ignorePunc = False \<rparr>) = 33"
proof -
  have n: "normalize_text basic_latin (js ''one two three'')
      \<lparr> ignoreCase = True, ignorePunc = False \<rparr> = js ''one two three''"
    "normalize_text basic_latin (js ''one'')
      \<lparr> ignoreCase = True, ignorePunc = False \<rparr> = js ''one''"
    by (simp_all add: string_eval)
  have sw: "splitWords (js ''one two three'') = [js ''one'', js ''two'', js ''three'']"
    "splitWords (js ''one'') = [js ''one'']"
    by (simp_all add: words_eval js_def)
  have c: "positional_matches [js ''one'', js ''two'', js ''three''] [js ''one''] = 1"
    unfolding count_loop_positional_matches [symmetric] by (simp add: count_loop.simps)
  have l: "length [js ''one'', js ''two'', js ''three''] = 3" "max 1 (3::nat) = 3" by simp_all
  have p: "Math_round (fl (fl (of_nat 1 / of_nat 3) * 100)) = 33" by code_simp
  have "accuracy (calcStats basic_latin (js ''one two three'') (js ''one'')
      \<lparr> ignoreCase = True, ignorePunc = False \<rparr>) = max 0 (min 100 33)"
    using calcStats_result [of basic_latin "js ''one two three''"
        "\<lparr> ignoreCase = True, ignorePunc = False \<rparr>" "js ''one''"]
    unfolding Let_def n sw c l p by blast
  then show ?thesis unfolding n sw by simp
qed

theorem clamp_is_identity_witness:
  "accuracy (calcStats basic_latin (js ''one two three'') (js ''one two'')
      \<lparr> ignoreCase = True, ignorePunc = False \<rparr>) =
   Math_round (js_mul (js_div (of_nat 2) (of_nat 3)) 100)"
proof -
  have n: "normalize_text basic_latin (js ''one two three'')
      \<lparr> ignoreCase = True, ignorePunc = False \<rparr> = js ''one two three''"
    "normalize_text basic_latin (js ''one two'')
      \<lparr> ignoreCase = True, ignorePunc = False \<rparr> = js ''one two''"
    by (simp_all add: string_eval)
  have sw: "splitWords (js ''one two three'') = [js ''one'', js ''two'', js ''three'']"
    "splitWords (js ''one two'') = [js ''one'', js ''two'']"
    by (simp_all add: words_eval js_def)
  have c: "count_loop [js ''one'', js ''two'', js ''three''] [js ''one'', js ''two''] 0 0 = 2"
    by (simp add: count_loop.simps)
  have l: "(if length [js ''one'', js ''two'', js ''three''] = 0 then 1
            else length [js ''one'', js ''two'', js ''three'']) = 3" by simp
  show ?thesis
    using clamp_is_identity [of basic_latin "js ''one two three''"
        "\<lparr> ignoreCase = True, ignorePunc = False \<rparr>" "js ''one two''"]
    unfolding Let_def n sw c l by blast
qed

theorem accuracy_monotone_witness:
  "positional_matches
     (splitWords (normalize_text basic_latin (js ''one two three'')
        \<lparr> ignoreCase = True, ignorePunc = False \<rparr>))
     (splitWords (normalize_text basic_latin (js ''one'')
        \<lparr> ignoreCase = True, ignorePunc = False \<rparr>))
   \<le> positional_matches
     (splitWords (normalize_text basic_latin (js ''one two three'')
        \<lparr> ignoreCase = True, ignorePunc = False \<rparr>))
     (splitWords (normalize_text basic_latin (js ''one two'')
        \<lparr> ignoreCase = True, ignorePunc = False \<rparr>)) \<and>
   accuracy (calcStats basic_latin (js ''one two three'') (js ''one'')
      \<lparr> ignoreCase = True, ignorePunc = False \<rparr>)
   \<le> accuracy (calcStats basic_latin (js ''one two three'') (js ''one two'')
      \<lparr> ignoreCase = True, ignorePunc = False \<rparr>)"
proof -
  have n: "normalize_text basic_latin (js ''one two three'')
      \<lparr> ignoreCase = True, ignorePunc = False \<rparr> = js ''one two three''"
    "normalize_text basic_latin (js ''one two'')
      \<lparr> ignoreCase = True, ignorePunc = False \<rparr> = js ''one two''"
    "normalize_text basic_latin (js ''one'')
      \<lparr> ignoreCase = True, ignorePunc = False \<rparr> = js ''one''"
    by (simp_all add: string_eval)
  have sw: "splitWords (js ''one two three'') = [js ''one'', js ''two'', js ''three'']"
    "splitWords (js ''one two'') = [js ''one'', js ''two'']"
    "splitWords (js ''one'') = [js ''one'']"
    by (simp_all add: words_eval js_def)
  have c: "positional_matches [js ''one'', js ''two'', js ''three''] [js ''one''] = 1"
    "positional_matches [js ''one'', js ''two'', js ''three''] [js ''one'', js ''two''] = 2"
    unfolding count_loop_positional_matches [symmetric] by (simp_all add: count_loop.simps)
  have h: "positional_matches
     (splitWords (normalize_text basic_latin (js ''one two three'')
        \<lparr> ignoreCase = True, ignorePunc = False \<rparr>))
     (splitWords (normalize_text basic_latin (js ''one'')
        \<lparr> ignoreCase = True, ignorePunc = False \<rparr>))
   \<le> positional_matches
     (splitWords (normalize_text basic_latin (js ''one two three'')
        \<lparr> ignoreCase = True, ignorePunc = False \<rparr>))
     (splitWords (normalize_text basic_latin (js ''one two'')
        \<lparr> ignoreCase = True, ignorePunc = False \<rparr>))"
    unfolding n sw c by simp
  show ?thesis using h accuracy_monotone [OF h] by blast
qed

section \<open>Words per minute\<close>

lemma minutes_eq:
  "max (js_div 1 60) (js_div (of_nat s) 60) = fl (of_nat (max 1 s) / 60)"
proof (cases "s = 0")
  case True
  have "0 \<le> fl (1 / 60)" by (rule fl_nonneg) simp
  then show ?thesis using True by (simp add: js_div_def fl_0 max_def)
next
  case False
  then have "(1::rat) / 60 \<le> of_nat s / 60" by (simp add: divide_right_mono)
  then have "fl (1 / 60) \<le> fl (of_nat s / 60)" by (intro fl_mono) simp_all
  moreover have "max 1 s = s" using False by simp
  ultimately show ?thesis by (simp add: js_div_def max_def)
qed

lemma wpm_eq: "wpm w s = Math_round (fl (of_nat w / fl (of_nat (max 1 s) / 60)))"
  unfolding wpm_def Let_def minutes_eq by (simp add: js_div_def)

lemma exact_wpm_eq: "exact_wpm w s = round_half_up (of_nat (60 * w) / of_nat (max 1 s))"
proof -
  have "(of_nat w :: rat) / max (1 / 60) (of_nat s / 60) = of_nat (60 * w) / of_nat (max 1 s)"
  proof (cases "s = 0")
    case True
    then show ?thesis by simp
  next
    case False
    then have "(1::rat) \<le> of_nat s" by simp
    then have "max (1 / 60) (of_nat s / 60) = (of_nat s :: rat) / 60" by (simp add: max_def)
    moreover have "max 1 s = s" using False by simp
    ultimately show ?thesis by simp
  qed
  then show ?thesis by (simp only: exact_wpm_def)
qed

lemma wpm_error:
  assumes "0 < S"
  shows "\<bar>fl (of_nat w / fl (of_nat S / 60)) - of_nat (60 * w) / of_nat S\<bar>
         \<le> 3 / 2 ^ 53 * (of_nat (60 * w) / of_nat S)"
proof (cases "w = 0")
  case True
  then show ?thesis by (simp add: fl_0)
next
  case False
  define e :: rat where "e = 1 / 2 ^ 53"
  define m :: rat where "m = of_nat S / 60"
  define M where "M = fl m"
  define x :: rat where "x = of_nat w / m"
  define q where "q = of_nat w / M"
  have e: "0 < e" "e < 1" by (simp_all add: e_def)
  have m: "0 < m" using assms by (simp add: m_def)
  have w: "(0::rat) < of_nat w" using False by simp
  have x: "0 < x" using w m by (simp add: x_def)
  have "\<bar>M - m\<bar> \<le> m / 2 ^ 53" unfolding M_def using m by (rule fl_error)
  then have "\<bar>M - m\<bar> \<le> m * e" by (simp add: e_def)
  then have Mb: "m * (1 - e) \<le> M" "M \<le> m * (1 + e)"
    unfolding right_diff_distrib distrib_left by linarith+
  have Mlo: "0 < m * (1 - e)" using m e by simp
  then have M: "0 < M" using Mb(1) by simp
  have q: "0 < q" using w M by (simp add: q_def)
  have q_hi: "q \<le> x / (1 - e)"
  proof -
    have "of_nat w / M \<le> of_nat w / (m * (1 - e))"
      using w Mlo Mb(1) by (intro frac_le) simp_all
    then show ?thesis by (simp add: q_def x_def)
  qed
  have q_lo: "x / (1 + e) \<le> q"
  proof -
    have "of_nat w / (m * (1 + e)) \<le> of_nat w / M"
      using w M Mb(2) by (intro frac_le) simp_all
    then show ?thesis by (simp add: q_def x_def)
  qed
  define v where "v = fl q"
  have "\<bar>v - q\<bar> \<le> q / 2 ^ 53" unfolding v_def using q by (rule fl_error)
  then have "\<bar>v - q\<bar> \<le> q * e" by (simp add: e_def)
  then have vb: "q * (1 - e) \<le> v" "v \<le> q * (1 + e)"
    unfolding right_diff_distrib distrib_left by linarith+
  have c1: "(1 + e) / (1 - e) \<le> 1 + 3 * e" unfolding e_def by simp
  have c2: "1 - 3 * e \<le> (1 - e) / (1 + e)" unfolding e_def by simp
  have "v \<le> x / (1 - e) * (1 + e)"
    using vb(2) q_hi e by (meson add_nonneg_nonneg less_imp_le mult_right_mono order_trans zero_le_one)
  also have "\<dots> = x * ((1 + e) / (1 - e))" by simp
  also have "\<dots> \<le> x * (1 + 3 * e)" using c1 x by (intro mult_left_mono) simp_all
  finally have hi: "v - x \<le> 3 * e * x" by (simp add: algebra_simps)
  have "x * (1 - 3 * e) \<le> x * ((1 - e) / (1 + e))" using c2 x by (intro mult_left_mono) simp_all
  also have "\<dots> = x / (1 + e) * (1 - e)" by simp
  also have "\<dots> \<le> q * (1 - e)" using q_lo e by (intro mult_right_mono) simp_all
  also have "\<dots> \<le> v" by (rule vb(1))
  finally have lo: "- (3 * e * x) \<le> v - x" by (simp add: algebra_simps)
  have xx: "x = of_nat (60 * w) / of_nat S" by (simp add: x_def m_def)
  have "\<bar>v - x\<bar> \<le> 3 * e * x" using hi lo by (simp add: abs_le_iff)
  then show ?thesis unfolding v_def q_def M_def m_def xx e_def by simp
qed

lemma wpm_vs_exact:
  assumes "w < 2 ^ 32"
  shows "wpm w s = exact_wpm w s \<or>
         (at_half (of_nat (60 * w) / of_nat (max 1 s)) \<and> wpm w s = exact_wpm w s - 1)"
proof -
  let ?S = "max 1 s"
  have S: "0 < ?S" by simp
  have "(of_nat w :: rat) < of_nat (2 ^ 32)" using assms by (simp only: of_nat_less_iff)
  then have wb: "(of_nat w :: rat) < 2 ^ 32" by simp
  have "3 / 2 ^ 53 * (of_nat (60 * w) / of_nat ?S) = (180 / 2 ^ 53 * of_nat w) / (of_nat ?S :: rat)"
    by simp
  also have "\<dots> < (1 / 2) / of_nat ?S"
  proof -
    have "(180::rat) / 2 ^ 53 * of_nat w < 180 / 2 ^ 53 * 2 ^ 32"
      using wb by (intro mult_strict_left_mono) simp_all
    also have "\<dots> < 1 / 2" by simp
    finally show ?thesis using S by (intro divide_strict_right_mono) simp_all
  qed
  also have "\<dots> = 1 / (2 * of_nat ?S)" by simp
  finally have b: "3 / 2 ^ 53 * (of_nat (60 * w) / of_nat ?S) < 1 / (2 * (of_nat ?S :: rat))" .
  have "\<bar>fl (of_nat w / fl (of_nat ?S / 60)) - of_nat (60 * w) / of_nat ?S\<bar>
      < 1 / (2 * of_nat ?S)"
    by (rule le_less_trans [OF wpm_error [OF S] b])
  from round_near [OF S this] show ?thesis
    unfolding wpm_eq exact_wpm_eq .
qed

lemma wpm_zero_seconds:
  assumes "w < 2 ^ 32"
  shows "wpm w 0 = 60 * int w"
proof -
  have r: "round_half_up (of_nat (60 * w)) = 60 * int w"
  proof -
    have "round_half_up (of_int (60 * int w)) = 60 * int w"
      unfolding round_half_up_def by (rule floor_unique) simp_all
    then show ?thesis by simp
  qed
  have "\<not> at_half (of_nat (60 * w))"
  proof
    assume "at_half (of_nat (60 * w))"
    then have "of_int (round_half_up (of_nat (60 * w))) = (of_nat (60 * w) :: rat) + 1 / 2"
      by (simp add: at_half_def round_half_up_def)
    then show False unfolding r by simp
  qed
  then show ?thesis
    using wpm_vs_exact [OF assms, of 0] r by (simp add: exact_wpm_eq)
qed

lemma fl_sixtieth: "0 < fl (1 / 60)"
  by (rule fl_pos_pos) simp

text \<open>
  C8, as amended. The words-per-minute value is \<open>Math.round\<close> of the double
  \<open>wordsTyped / max(1/60, elapsedSeconds/60)\<close>, both quotients rounded to doubles; the
  denominator is at least the double nearest to \<open>1/60\<close>, which is positive, so nothing
  is divided by zero. For fewer than \<open>2^32\<close> words (the bound of an array's length) the
  value is the exact quotient rounded half up, except that it may be one less where the
  exact quotient is half-way between two integers; and at 0 seconds it is
  \<open>60 * wordsTyped\<close>.
\<close>

theorem wpm_result:
  "wpm typed secs =
     Math_round (fl (of_nat typed / max (fl (1 / 60)) (fl (of_nat secs / 60)))) \<and>
   fl (1 / 60) \<le> max (fl (1 / 60)) (fl (of_nat secs / 60)) \<and> 0 < fl (1 / 60) \<and>
   (typed < 2 ^ 32 \<longrightarrow>
      (wpm typed secs = exact_wpm typed secs \<or>
       (at_half (of_nat (60 * typed) / of_nat (max 1 secs)) \<and>
        wpm typed secs = exact_wpm typed secs - 1)) \<and>
      wpm typed 0 = 60 * int typed)"
proof (intro conjI impI)
  show "wpm typed secs =
     Math_round (fl (of_nat typed / max (fl (1 / 60)) (fl (of_nat secs / 60))))"
    by (simp add: wpm_def js_div_def Let_def)
  show "fl (1 / 60) \<le> max (fl (1 / 60)) (fl (of_nat secs / 60))" by simp
  show "0 < fl (1 / 60)" by (rule fl_sixtieth)
next
  assume t: "typed < 2 ^ 32"
  show "wpm typed secs = exact_wpm typed secs \<or>
       (at_half (of_nat (60 * typed) / of_nat (max 1 secs)) \<and>
        wpm typed secs = exact_wpm typed secs - 1)"
    using t by (rule wpm_vs_exact)
  show "wpm typed 0 = 60 * int typed" using t by (rule wpm_zero_seconds)
qed

text \<open>
  C8 as stated fails where the exact quotient is half-way between two integers: 23 words
  in 184 seconds are exactly 7.5 words per minute, the double quotient is
  \<open>7.499999999999999\<close>, and the value shown is 7, not 8.
\<close>

theorem wpm_differs_from_exact: "wpm 23 184 = 7 \<and> exact_wpm 23 184 = 8"
  by code_simp

theorem wpm_result_witness:
  "(23::nat) < 2 ^ 32 \<and> at_half (of_nat (60 * 23) / of_nat (max 1 184)) \<and>
   wpm 23 184 = exact_wpm 23 184 - 1 \<and> wpm 23 0 = 60 * int 23"
proof -
  have ne: "wpm 23 184 \<noteq> exact_wpm 23 184" by code_simp
  have lt: "(23::nat) < 2 ^ 32" by simp
  from wpm_result [of 23 184] ne lt show ?thesis by blast
qed

section \<open>Idempotence of the normaliser\<close>

lemma unat_16_bound: "unat (u :: 16 word) < 0x10000"
proof -
  have "unat u < 2 ^ LENGTH(16)" by (rule unsigned_less)
  then show ?thesis by simp
qed

lemma high_unat: "isHighSurrogate u \<longleftrightarrow> 0xD800 \<le> unat u \<and> unat u \<le> 0xDBFF"
  by (simp add: isHighSurrogate_def word_le_nat_alt)

lemma low_unat: "isLowSurrogate u \<longleftrightarrow> 0xDC00 \<le> unat u \<and> unat u \<le> 0xDFFF"
  by (simp add: isLowSurrogate_def word_le_nat_alt)

lemma unat_of_nat_16: "n < 0x10000 \<Longrightarrow> unat (of_nat n :: 16 word) = n"
  by (simp add: unat_of_nat)

lemma encode_unit: "UTF16EncodeCodePoint (unat (u :: 16 word)) = [u]"
  using unat_16_bound [of u] by (simp add: UTF16EncodeCodePoint_def)

lemma encode_pair:
  assumes "isHighSurrogate u" "isLowSurrogate v"
  shows "UTF16EncodeCodePoint (0x10000 + (unat u - 0xD800) * 0x400 + (unat v - 0xDC00)) = [u, v]"
proof -
  define a where "a = unat u - 0xD800"
  define b where "b = unat v - 0xDC00"
  have a: "a < 0x400" "unat u = 0xD800 + a" using assms(1) by (auto simp: a_def high_unat)
  have b: "b < 0x400" "unat v = 0xDC00 + b" using assms(2) by (auto simp: b_def low_unat)
  have d: "(a * 0x400 + b) div 0x400 = a" "(a * 0x400 + b) mod 0x400 = b"
    using b(1) by simp_all
  have "word_of_nat (unat u) = u" "word_of_nat (unat v) = v" by simp_all
  then have uv: "word_of_nat (0xD800 + a) = u" "word_of_nat (0xDC00 + b) = v"
    unfolding a(2) b(2) .
  have "UTF16EncodeCodePoint (0x10000 + a * 0x400 + b) =
      [word_of_nat (0xD800 + a), word_of_nat (0xDC00 + b)]"
    unfolding UTF16EncodeCodePoint_def using d by (simp del: of_nat_add of_nat_numeral)
  then show ?thesis
    unfolding a_def [symmetric] b_def [symmetric] uv .
qed

lemma encode_decode: "CodePointsToString (StringToCodePoints s) = s"
  by (induction s rule: StringToCodePoints.induct)
    (simp_all add: CodePointsToString_def encode_unit encode_pair)

lemma decode_Cons_unit:
  "\<not> isHighSurrogate u \<Longrightarrow> StringToCodePoints (u # xs) = unat u # StringToCodePoints xs"
  by (cases xs) simp_all

lemma decode_encode_one:
  assumes "isScalarValue c"
  shows "StringToCodePoints (UTF16EncodeCodePoint c @ xs) = c # StringToCodePoints xs"
proof (cases "c < 0x10000")
  case True
  then have u: "unat (of_nat c :: 16 word) = c" by (rule unat_of_nat_16)
  have "\<not> isHighSurrogate (of_nat c)" using assms by (auto simp: high_unat u isScalarValue_def)
  then show ?thesis using True by (simp add: UTF16EncodeCodePoint_def decode_Cons_unit u)
next
  case False
  define a where "a = (c - 0x10000) div 0x400"
  define b where "b = (c - 0x10000) mod 0x400"
  have c: "c = 0x10000 + a * 0x400 + b" using False by (simp add: a_def b_def)
  have a: "a < 0x400" using assms False by (simp add: a_def isScalarValue_def)
  have b: "b < 0x400" by (simp add: b_def)
  define H :: "16 word" where "H = of_nat (0xD800 + a)"
  define L :: "16 word" where "L = of_nat (0xDC00 + b)"
  have ua: "unat H = 0xD800 + a"
    unfolding H_def using a by (intro unat_of_nat_16) simp
  have ub: "unat L = 0xDC00 + b"
    unfolding L_def using b by (intro unat_of_nat_16) simp
  have h: "isHighSurrogate H" using a by (simp add: high_unat ua)
  have l: "isLowSurrogate L" using b by (simp add: low_unat ub)
  have "UTF16EncodeCodePoint c = [H, L]"
    unfolding UTF16EncodeCodePoint_def H_def L_def a_def b_def using False by simp
  then show ?thesis using h l by (simp add: ua ub c)
qed

lemma decode_encode:
  "list_all isScalarValue cs \<Longrightarrow> StringToCodePoints (CodePointsToString cs) = cs"
  by (induction cs) (simp_all add: CodePointsToString_def decode_encode_one)

lemma zero_width_unat:
  "(0x200B \<le> u \<and> u \<le> 0x200D) \<or> u = 0xFEFF \<longleftrightarrow> zero_width (unat (u :: 16 word))"
proof -
  have "u = 0xFEFF \<longleftrightarrow> unat u = 0xFEFF" by (simp add: word_unat_eq_iff)
  then show ?thesis by (simp add: zero_width_def word_le_nat_alt)
qed

lemma sanitize_code_points:
  "sanitize s = CodePointsToString (filter (\<lambda>c. \<not> zero_width c) (StringToCodePoints s))"
proof (induction s rule: StringToCodePoints.induct)
  case 1
  show ?case by (simp add: sanitize_def CodePointsToString_def)
next
  case (2 u)
  show ?case by (simp add: sanitize_def CodePointsToString_def zero_width_unat encode_unit)
next
  case (3 u v r)
  show ?case
  proof (cases "isHighSurrogate u \<and> isLowSurrogate v")
    case True
    then have "\<not> zero_width (unat u)" "\<not> zero_width (unat v)"
      by (auto simp: zero_width_def high_unat low_unat)
    moreover have "\<not> zero_width (0x10000 + (unat u - 0xD800) * 0x400 + (unat v - 0xDC00))"
      by (simp add: zero_width_def)
    ultimately show ?thesis
      using True "3.IH"(1)
      by (simp add: sanitize_def CodePointsToString_def zero_width_unat encode_pair)
  next
    case False
    then show ?thesis
      using "3.IH"(2)
      by (auto simp: sanitize_def CodePointsToString_def zero_width_unat encode_unit)
  qed
qed

lemma toLowercase_fixed:
  "\<forall>c \<in> set xs. lowercaseMapping U c = [c] \<and> c \<noteq> 0x3A3 \<Longrightarrow> toLowercase U front xs = xs"
  by (induction xs arbitrary: front) simp_all

lemma toLowercase_output:
  assumes "lowercase_stable U" "list_all isScalarValue xs" "d \<in> set (toLowercase U front xs)"
  shows "isScalarValue d \<and> lowercaseMapping U d = [d] \<and> d \<noteq> 0x3A3 \<and>
         (zero_width d \<longrightarrow> (\<exists>c \<in> set xs. zero_width c)) \<and>
         (isPunctuation U d \<or> isSymbol U d \<longrightarrow>
            (\<exists>c \<in> set xs. isPunctuation U c \<or> isSymbol U c))"
  using assms(2,3)
proof (induction xs arbitrary: front)
  case Nil
  then show ?case by simp
next
  case (Cons c xs)
  have sc: "isScalarValue c" and rest: "list_all isScalarValue xs" using Cons.prems(1) by simp_all
  from Cons.prems(2) consider
      (sigma) "d = 0x3C2"
    | (mapped) "d \<in> set (lowercaseMapping U c)"
    | (later) "d \<in> set (toLowercase U (c # front) xs)"
    by (auto split: if_splits)
  then show ?case
  proof cases
    case sigma
    then show ?thesis
      using assms(1) by (simp add: lowercase_stable_def isScalarValue_def zero_width_def)
  next
    case mapped
    have "\<forall>d \<in> set (lowercaseMapping U c).
           isScalarValue d \<and> lowercaseMapping U d = [d] \<and> d \<noteq> 0x3A3 \<and>
           (zero_width d \<longrightarrow> zero_width c) \<and>
           (isPunctuation U d \<or> isSymbol U d \<longrightarrow> isPunctuation U c \<or> isSymbol U c)"
      using assms(1) sc unfolding lowercase_stable_def by blast
    then have "isScalarValue d \<and> lowercaseMapping U d = [d] \<and> d \<noteq> 0x3A3 \<and>
           (zero_width d \<longrightarrow> zero_width c) \<and>
           (isPunctuation U d \<or> isSymbol U d \<longrightarrow> isPunctuation U c \<or> isSymbol U c)"
      using mapped by blast
    then show ?thesis by auto
  next
    case later
    from Cons.IH [OF rest later] show ?thesis by auto
  qed
qed

lemma normalize_code_points_scalar:
  assumes "list_all isScalarValue cs" "ignoreCase opts \<longrightarrow> lowercase_stable U"
  shows "list_all isScalarValue (normalize_code_points U opts cs)"
proof -
  define B where "B = (if ignorePunc opts
      then filter (\<lambda>c. \<not> (isPunctuation U c \<or> isSymbol U c)) (filter (\<lambda>c. \<not> zero_width c) cs)
      else filter (\<lambda>c. \<not> zero_width c) cs)"
  have B: "list_all isScalarValue B" using assms(1) by (simp add: B_def list_all_iff)
  have n: "normalize_code_points U opts cs = (if ignoreCase opts then toLowercase U [] B else B)"
    by (simp add: normalize_code_points_def B_def Let_def)
  show ?thesis
  proof (cases "ignoreCase opts")
    case True
    then have st: "lowercase_stable U" using assms(2) by simp
    have "isScalarValue d" if "d \<in> set (toLowercase U [] B)" for d
      using toLowercase_output [OF st B that] by simp
    then show ?thesis using True by (simp add: n list_all_iff)
  next
    case False
    then show ?thesis using B by (simp add: n)
  qed
qed

lemma normalize_code_points_idem:
  assumes "list_all isScalarValue cs" "ignoreCase opts \<longrightarrow> lowercase_stable U"
  shows "normalize_code_points U opts (normalize_code_points U opts cs) =
         normalize_code_points U opts cs"
proof -
  define ps where "ps = (\<lambda>c. isPunctuation U c \<or> isSymbol U c)"
  define B where "B = (if ignorePunc opts
      then filter (\<lambda>c. \<not> ps c) (filter (\<lambda>c. \<not> zero_width c) cs)
      else filter (\<lambda>c. \<not> zero_width c) cs)"
  define C where "C = (if ignoreCase opts then toLowercase U [] B else B)"
  have n: "normalize_code_points U opts xs =
      (let out = filter (\<lambda>c. \<not> zero_width c) xs;
           out = (if ignorePunc opts then filter (\<lambda>c. \<not> ps c) out else out)
       in if ignoreCase opts then toLowercase U [] out else out)" for xs
    by (simp add: normalize_code_points_def ps_def Let_def)
  have nC: "normalize_code_points U opts cs = C"
    by (simp add: n B_def C_def Let_def)
  have B: "list_all isScalarValue B" using assms(1) by (simp add: B_def list_all_iff)
  have Bzw: "\<not> zero_width c" if "c \<in> set B" for c
    using that by (simp add: B_def split: if_splits)
  have Bps: "\<not> ps c" if "c \<in> set B" "ignorePunc opts" for c
    using that by (simp add: B_def)
  have out: "lowercaseMapping U d = [d] \<and> d \<noteq> 0x3A3 \<and>
      (zero_width d \<longrightarrow> (\<exists>c \<in> set B. zero_width c)) \<and> (ps d \<longrightarrow> (\<exists>c \<in> set B. ps c))"
    if "ignoreCase opts" "d \<in> set C" for d
  proof -
    from that(1) have st: "lowercase_stable U" using assms(2) by simp
    from that have "d \<in> set (toLowercase U [] B)" by (simp add: C_def)
    from toLowercase_output [OF st B this] show ?thesis by (simp add: ps_def)
  qed
  have Czw: "\<not> zero_width d" if d: "d \<in> set C" for d
  proof (cases "ignoreCase opts")
    case True
    from out [OF True d] Bzw show ?thesis by blast
  next
    case False
    then show ?thesis using Bzw d by (simp add: C_def)
  qed
  have Cps: "\<not> ps d" if d: "d \<in> set C" and p: "ignorePunc opts" for d
  proof (cases "ignoreCase opts")
    case True
    from out [OF True d] Bps p show ?thesis by blast
  next
    case False
    then show ?thesis using Bps d p by (simp add: C_def)
  qed
  have s1: "filter (\<lambda>c. \<not> zero_width c) C = C"
    unfolding filter_id_conv using Czw by blast
  have s2: "filter (\<lambda>c. \<not> ps c) C = C" if "ignorePunc opts"
    unfolding filter_id_conv using Cps that by blast
  have s3: "toLowercase U [] C = C" if "ignoreCase opts"
  proof (rule toLowercase_fixed, rule ballI)
    fix c assume "c \<in> set C"
    from out [OF that this] show "lowercaseMapping U c = [c] \<and> c \<noteq> 0x3A3" by simp
  qed
  have "normalize_code_points U opts C = C"
  proof (cases "ignorePunc opts")
    case True
    show ?thesis
    proof (cases "ignoreCase opts")
      case True
      with \<open>ignorePunc opts\<close> show ?thesis by (simp add: n Let_def s1 s2 s3)
    next
      case False
      with \<open>ignorePunc opts\<close> show ?thesis by (simp add: n Let_def s1 s2)
    qed
  next
    case False
    show ?thesis
    proof (cases "ignoreCase opts")
      case True
      with \<open>\<not> ignorePunc opts\<close> show ?thesis by (simp add: n Let_def s1 s3)
    next
      case False
      with \<open>\<not> ignorePunc opts\<close> show ?thesis by (simp add: n Let_def s1)
    qed
  qed
  then show ?thesis unfolding nC .
qed

lemma normalize_text_code_points:
  assumes "well_formed s" "ignoreCase opts \<longrightarrow> lowercase_stable U"
  shows "StringToCodePoints (normalize_text U s opts) =
         normalize_code_points U opts (StringToCodePoints s)"
proof -
  let ?ps = "\<lambda>c. isPunctuation U c \<or> isSymbol U c"
  let ?cs = "StringToCodePoints s"
  let ?A = "filter (\<lambda>c. \<not> zero_width c) ?cs"
  let ?B = "if ignorePunc opts then filter (\<lambda>c. \<not> ?ps c) ?A else ?A"
  have cs: "list_all isScalarValue ?cs" using assms(1) by (simp add: well_formed_def)
  have A: "list_all isScalarValue ?A" using cs by (simp add: list_all_iff)
  have B: "list_all isScalarValue ?B" using cs by (simp add: list_all_iff)
  have dA: "StringToCodePoints (sanitize s) = ?A"
    unfolding sanitize_code_points using A by (rule decode_encode)
  have dB: "StringToCodePoints
      (if ignorePunc opts then stripPunctuation U (sanitize s) else sanitize s) = ?B"
  proof (cases "ignorePunc opts")
    case True
    have "list_all isScalarValue (filter (\<lambda>c. \<not> ?ps c) ?A)" using A by (simp add: list_all_iff)
    then show ?thesis using True by (simp add: stripPunctuation_def dA decode_encode)
  next
    case False
    then show ?thesis by (simp add: dA)
  qed
  show ?thesis
  proof (cases "ignoreCase opts")
    case True
    then have st: "lowercase_stable U" using assms(2) by simp
    have "list_all isScalarValue (toLowercase U [] ?B)"
      unfolding list_all_iff using toLowercase_output [OF st B] by blast
    then have "StringToCodePoints (CodePointsToString (toLowercase U [] ?B)) = toLowercase U [] ?B"
      by (rule decode_encode)
    then show ?thesis
      using True unfolding normalize_text_def normalize_code_points_def Let_def toLowerCase_def
      by (simp only: dB if_True)
  next
    case False
    then show ?thesis
      unfolding normalize_text_def normalize_code_points_def Let_def
      by (simp only: dB if_False)
  qed
qed

text \<open>
  C5, as amended. \<open>normalize\<close> is idempotent on every string when both options are off;
  and it is idempotent for every options record on every string without an unpaired
  surrogate code unit, provided, when \<open>ignoreCase\<close> is set, that the lower-case mapping of
  the engine is stable: it maps scalar values to scalar values that it leaves fixed, none
  of them a capital sigma, and creates no zero-width, punctuation or symbol character.
\<close>

theorem normalize_idempotent:
  "(\<not> ignoreCase opts \<and> \<not> ignorePunc opts \<longrightarrow>
      normalize_text U (normalize_text U s opts) opts = normalize_text U s opts) \<and>
   (well_formed s \<and> (ignoreCase opts \<longrightarrow> lowercase_stable U) \<longrightarrow>
      normalize_text U (normalize_text U s opts) opts = normalize_text U s opts)"
proof (intro conjI impI)
  assume "\<not> ignoreCase opts \<and> \<not> ignorePunc opts"
  then show "normalize_text U (normalize_text U s opts) opts = normalize_text U s opts"
    by (simp add: normalize_text_def sanitize_def)
next
  assume a: "well_formed s \<and> (ignoreCase opts \<longrightarrow> lowercase_stable U)"
  then have wf: "well_formed s" and st: "ignoreCase opts \<longrightarrow> lowercase_stable U" by simp_all
  let ?n = "normalize_text U s opts"
  have cs: "list_all isScalarValue (StringToCodePoints s)" using wf by (simp add: well_formed_def)
  have d: "StringToCodePoints ?n = normalize_code_points U opts (StringToCodePoints s)"
    using wf st by (rule normalize_text_code_points)
  have "well_formed ?n"
    unfolding well_formed_def d using cs st by (rule normalize_code_points_scalar)
  then have "StringToCodePoints (normalize_text U ?n opts) =
      normalize_code_points U opts (StringToCodePoints ?n)"
    using st by (rule normalize_text_code_points)
  also have "\<dots> = StringToCodePoints ?n"
    unfolding d using cs st by (rule normalize_code_points_idem)
  finally have "CodePointsToString (StringToCodePoints (normalize_text U ?n opts)) =
      CodePointsToString (StringToCodePoints ?n)" by simp
  then show "normalize_text U ?n opts = ?n" by (simp only: encode_decode)
qed

lemma basic_latin_stable: "lowercase_stable basic_latin"
  unfolding lowercase_stable_def basic_latin_def
  by (auto simp: isScalarValue_def zero_width_def)

text \<open>
  C5 as stated fails on a string with unpaired surrogates: with punctuation ignored,
  \<open>"\<bsol>uD83D!\<bsol>uDE00"\<close> normalises to the surrogate pair \<open>"\<bsol>uD83D\<bsol>uDE00"\<close>, which is the
  symbol U+1F600, and normalising that gives the empty string.
\<close>

theorem normalize_not_idempotent:
  "normalize_text basic_latin
     (normalize_text basic_latin [0xD83D, 0x21, 0xDE00] \<lparr> ignoreCase = False, ignorePunc = True \<rparr>)
     \<lparr> ignoreCase = False, ignorePunc = True \<rparr> = [] \<and>
   normalize_text basic_latin [0xD83D, 0x21, 0xDE00] \<lparr> ignoreCase = False, ignorePunc = True \<rparr>
     = [0xD83D, 0xDE00]"
  by (simp add: string_eval)

theorem normalize_idempotent_witness:
  "well_formed [0x48, 0x3A3, 0x21] \<and> lowercase_stable basic_latin \<and>
   normalize_text basic_latin [0x48, 0x3A3, 0x21] \<lparr> ignoreCase = True, ignorePunc = True \<rparr>
     = [0x68, 0x3C2] \<and>
   normalize_text basic_latin [0x68, 0x3C2] \<lparr> ignoreCase = True, ignorePunc = True \<rparr>
     = [0x68, 0x3C2]"
proof -
  have wf: "well_formed [0x48, 0x3A3, 0x21]"
    by (simp add: well_formed_def isScalarValue_def isHighSurrogate_def isLowSurrogate_def)
  have n: "normalize_text basic_latin [0x48, 0x3A3, 0x21]
      \<lparr> ignoreCase = True, ignorePunc = True \<rparr> = [0x68, 0x3C2]"
    by (simp add: string_eval)
  from normalize_idempotent [of "\<lparr> ignoreCase = True, ignorePunc = True \<rparr>" basic_latin
      "[0x48, 0x3A3, 0x21]"] wf basic_latin_stable
  have "normalize_text basic_latin
      (normalize_text basic_latin [0x48, 0x3A3, 0x21] \<lparr> ignoreCase = True, ignorePunc = True \<rparr>)
      \<lparr> ignoreCase = True, ignorePunc = True \<rparr> =
    normalize_text basic_latin [0x48, 0x3A3, 0x21] \<lparr> ignoreCase = True, ignorePunc = True \<rparr>"
    by blast
  then show ?thesis unfolding n using wf basic_latin_stable n by blast
qed

end
